theory Spec2Isabelle
  imports Main "HOL-Library.Word"
begin

unbundle bit_operations_syntax

section \<open>Data model of \<^verbatim>\<open>src/nix/verify.cc\<close>\<close>

text \<open>
  The file holds one engine, \<^verbatim>\<open>MixVerify::verifyPaths\<close>, and two commands that call it.
  Everything the engine calls outside the file (the store, the substituters, the hash
  sink, the signature check, the thread pool, the exception classes) is declared in
  other headers of the repository; those parts are parameters of the model, each
  marked below.
\<close>

type_synonym Path = string

text \<open>
  \<^verbatim>\<open>size_t\<close>: an unsigned machine word, 64 bits wide on the usual platforms. \<^verbatim>\<open>++\<close> wraps
  around, \<^verbatim>\<open>>=\<close> compares unsigned, and a value is true in a condition iff it is not 0.
\<close>

type_synonym size_t = "64 word"

text \<open>
  Modelled from the spec: the exception classes. \<^verbatim>\<open>Error\<close> is what both handlers of
  \<^verbatim>\<open>doPath\<close> catch (\<^verbatim>\<open>catch (Error & e)\<close>); \<^verbatim>\<open>Interrupted\<close> is the cancellation raised by
  \<^verbatim>\<open>checkInterrupt\<close>, which is not an \<^verbatim>\<open>Error\<close>, passes both handlers and ends the run.
\<close>

datatype exn = Error string | Interrupted

text \<open>Modelled from the spec: an algorithm-tagged hash value.\<close>

datatype HashType = htUnknown | htMD5 | htSHA1 | htSHA256 | htSHA512

record Hash =
  htype :: HashType
  digest :: string

text \<open>
  Modelled from the spec: the metadata of a path. \<^verbatim>\<open>sigs\<close> is a \<^verbatim>\<open>StringSet\<close>; the list
  is the sequence in which \<^verbatim>\<open>for (auto sig : sigs)\<close> visits it.
\<close>

record ValidPathInfo =
  narHash :: Hash
  ultimate :: bool
  sigs :: "string list"

text \<open>Modelled from the spec: the public keys, a map from the name of a key to the key.\<close>

type_synonym PublicKeys = "string \<rightharpoonup> string"

text \<open>
  Modelled from the spec: a store (the primary one or a substituter), by the three
  operations the engine calls on it. Each may throw. \<^verbatim>\<open>narFromPath\<close> yields the archive
  that the real operation streams into the sink. \<^verbatim>\<open>uri\<close> names the store in the trace.
\<close>

record Store =
  uri :: string
  queryPathInfo :: "Path \<Rightarrow> exn + ValidPathInfo"
  narFromPath :: "Path \<Rightarrow> exn + string"
  isValidPath :: "Path \<Rightarrow> exn + bool"

text \<open>
  Modelled from the spec: the remaining collaborators. \<^verbatim>\<open>hashSink t nar\<close> is the hash
  that a \<^verbatim>\<open>HashSink(t)\<close> returns from \<^verbatim>\<open>finish()\<close> after \<^verbatim>\<open>nar\<close> was written to it;
  \<^verbatim>\<open>checkSignature info keys sig\<close> is \<^verbatim>\<open>info.checkSignature(keys, sig)\<close>, which may throw.
\<close>

record env =
  openStoreAt :: "string \<Rightarrow> exn + Store"
  getDefaultPublicKeys :: "exn + PublicKeys"
  hashSink :: "HashType \<Rightarrow> string \<Rightarrow> Hash"
  checkSignature :: "ValidPathInfo \<Rightarrow> PublicKeys \<Rightarrow> string \<Rightarrow> exn + bool"

text \<open>The fields of \<^verbatim>\<open>struct MixVerify\<close> (lines 15 to 18).\<close>

record MixVerify =
  noContents :: bool
  noTrust :: bool
  substituterUris :: "string list"
  sigsNeeded :: size_t

text \<open>
  The constructor (lines 20 to 27) registers four flags and assigns no field.
  \<^verbatim>\<open>noContents\<close> and \<^verbatim>\<open>noTrust\<close> have the initialiser \<^verbatim>\<open>= false\<close>, \<^verbatim>\<open>substituterUris\<close> is
  an empty list by its own constructor, and \<^verbatim>\<open>sigsNeeded\<close> has no initialiser: it holds
  whatever its storage held, which is the parameter \<^verbatim>\<open>uninit\<close>.
\<close>

definition MixVerify_new :: "size_t \<Rightarrow> MixVerify" where
  "MixVerify_new uninit =
     \<lparr>noContents = False, noTrust = False, substituterUris = [], sigsNeeded = uninit\<rparr>"

text \<open>
  Modelled from the spec: what \<^verbatim>\<open>mkFlag\<close> and \<^verbatim>\<open>mkIntFlag\<close> register. A flag with a
  \<^verbatim>\<open>bool\<close> destination sets it to true, \<^verbatim>\<open>--sigs-needed\<close> stores its number, and the handler
  of \<^verbatim>\<open>--substituter\<close> is line 25. \<^verbatim>\<open>parseFlags\<close> is the object after construction and the
  flags of the command line.
\<close>

datatype flag = NoContents | NoTrust | Substituter string | SigsNeeded size_t

fun setFlag :: "MixVerify \<Rightarrow> flag \<Rightarrow> MixVerify" where
  "setFlag v NoContents = v\<lparr>noContents := True\<rparr>"
| "setFlag v NoTrust = v\<lparr>noTrust := True\<rparr>"
| "setFlag v (Substituter s) = v\<lparr>substituterUris := substituterUris v @ [s]\<rparr>"
| "setFlag v (SigsNeeded n) = v\<lparr>sigsNeeded := n\<rparr>"

definition parseFlags :: "size_t \<Rightarrow> flag list \<Rightarrow> MixVerify" where
  "parseFlags uninit fs = foldl setFlag (MixVerify_new uninit) fs"

text \<open>The four atomic counters of \<^verbatim>\<open>verifyPaths\<close> (lines 39 to 42).\<close>

record counters =
  untrusted :: size_t
  corrupted :: size_t
  done' :: size_t
  failed :: size_t

definition noCounts :: counters where
  "noCounts = \<lparr>untrusted = 0, corrupted = 0, done' = 0, failed = 0\<rparr>"

text \<open>
  The trace of a run: the calls on the collaborators and the messages printed at
  \<^verbatim>\<open>lvlError\<close>, in the order in which they happen. The progress bar and the summary line
  built by \<^verbatim>\<open>showProgress\<close> only display the counters and are left out, as are
  \<^verbatim>\<open>restoreAffinity\<close> and the activity of the progress bar.
\<close>

datatype msg =
    MsgModified Path Hash Hash
  | MsgUntrusted Path
  | MsgError string

datatype event =
    OpenStoreAt string
  | GetDefaultPublicKeys
  | QueryPathInfo string Path
  | NarFromPath string Path
  | IsValidPath string Path
  | CheckSignature string
  | PrintMsg msg

text \<open>
  A statement yields the events it caused, the state it left and the exception it
  threw, if any. \<^verbatim>\<open>emit\<close> puts events in front of a result; \<^verbatim>\<open>andThen\<close> is the
  sequence of two statements: an exception of the first skips the second.
\<close>

type_synonym 's result = "event list \<times> 's \<times> exn option"

definition emit :: "event list \<Rightarrow> 's result \<Rightarrow> 's result" where
  "emit es r = (es @ fst r, snd r)"

definition andThen :: "'s result \<Rightarrow> ('s \<Rightarrow> 's result) \<Rightarrow> 's result" where
  "andThen r f =
     (case snd (snd r) of
        Some e \<Rightarrow> r
      | None \<Rightarrow> emit (fst r) (f (fst (snd r))))"

section \<open>The exit status (lines 154 to 157)\<close>

definition exitStatus :: "counters \<Rightarrow> int" where
  "exitStatus c =
     (if corrupted c \<noteq> 0 then 1 else 0) OR
     (if untrusted c \<noteq> 0 then 2 else 0) OR
     (if failed c \<noteq> 0 then 4 else 0)"

section \<open>The trust check (lines 90 to 133)\<close>

text \<open>The two locals that \<^verbatim>\<open>doSigs\<close> captures by reference (lines 99 and 101).\<close>

record sigstate =
  sigsSeen :: "string set"
  validSigs :: size_t

text \<open>
  \<^verbatim>\<open>doSigs\<close> (lines 103 to 110); \<^verbatim>\<open>chk\<close> is \<^verbatim>\<open>info.checkSignature(publicKeys, _)\<close>. When the
  check throws, the signature is already in \<^verbatim>\<open>sigsSeen\<close>.
\<close>

fun doSigs :: "(string \<Rightarrow> exn + bool) \<Rightarrow> string list \<Rightarrow> sigstate \<Rightarrow> sigstate result" where
  "doSigs chk [] st = ([], st, None)"
| "doSigs chk (sig # rest) st =
     (if sig \<in> sigsSeen st then doSigs chk rest st
      else
        (case chk sig of
           Inl e \<Rightarrow> ([CheckSignature sig], st\<lparr>sigsSeen := insert sig (sigsSeen st)\<rparr>, Some e)
         | Inr ok \<Rightarrow>
             emit [CheckSignature sig]
               (doSigs chk rest
                  (if ok
                   then st\<lparr>sigsSeen := insert sig (sigsSeen st), validSigs := validSigs st + 1\<rparr>
                   else st\<lparr>sigsSeen := insert sig (sigsSeen st)\<rparr>))))"

text \<open>The body of the inner \<^verbatim>\<open>try\<close> (lines 117 and 118) for one substituter.\<close>

definition querySubstituter ::
  "(string \<Rightarrow> exn + bool) \<Rightarrow> Path \<Rightarrow> Store \<Rightarrow> sigstate \<Rightarrow> sigstate result" where
  "querySubstituter chk storePath store2 st =
     emit [IsValidPath (uri store2) storePath]
       (case isValidPath store2 storePath of
          Inl e \<Rightarrow> ([], st, Some e)
        | Inr valid \<Rightarrow>
            if \<not> valid then ([], st, None)
            else
              emit [QueryPathInfo (uri store2) storePath]
                (case queryPathInfo store2 storePath of
                   Inl e \<Rightarrow> ([], st, Some e)
                 | Inr info2 \<Rightarrow> doSigs chk (sigs info2) st))"

text \<open>
  The inner handler (lines 119 to 121): an \<^verbatim>\<open>Error\<close> is printed and the statement ends
  normally; any other exception passes.
\<close>

definition catchError :: "'s result \<Rightarrow> 's result" where
  "catchError r =
     (case snd (snd r) of
        Some (Error m) \<Rightarrow> (fst r @ [PrintMsg (MsgError m)], fst (snd r), None)
      | _ \<Rightarrow> r)"

text \<open>The loop over the substituters (lines 114 to 122), with its \<^verbatim>\<open>break\<close>.\<close>

fun substituterLoop ::
  "(string \<Rightarrow> exn + bool) \<Rightarrow> Path \<Rightarrow> size_t \<Rightarrow> Store list \<Rightarrow> sigstate \<Rightarrow> sigstate result" where
  "substituterLoop chk storePath actualSigsNeeded [] st = ([], st, None)"
| "substituterLoop chk storePath actualSigsNeeded (store2 # rest) st =
     (if actualSigsNeeded \<le> validSigs st then ([], st, None)
      else
        andThen (catchError (querySubstituter chk storePath store2 st))
          (substituterLoop chk storePath actualSigsNeeded rest))"

text \<open>Line 100.\<close>

definition actualSigsNeeded_of :: "size_t \<Rightarrow> size_t" where
  "actualSigsNeeded_of n = (if n \<noteq> 0 then n else 1)"

text \<open>
  The \<^verbatim>\<open>else\<close> branch up to the end of the loop (lines 99 to 122): the local signatures,
  then the substituters.
\<close>

definition collectSigs ::
  "(string \<Rightarrow> exn + bool) \<Rightarrow> size_t \<Rightarrow> Store list \<Rightarrow> Path \<Rightarrow> ValidPathInfo
     \<Rightarrow> sigstate result" where
  "collectSigs chk n substituters storePath info =
     andThen (doSigs chk (sigs info) \<lparr>sigsSeen = {}, validSigs = 0\<rparr>)
       (substituterLoop chk storePath (actualSigsNeeded_of n) substituters)"

text \<open>The value of \<^verbatim>\<open>good\<close> at line 128 (lines 92 to 126).\<close>

definition isTrusted ::
  "env \<Rightarrow> MixVerify \<Rightarrow> Store list \<Rightarrow> PublicKeys \<Rightarrow> Path \<Rightarrow> ValidPathInfo \<Rightarrow> bool result" where
  "isTrusted e v substituters publicKeys storePath info =
     (if ultimate info \<and> sigsNeeded v = 0 then ([], True, None)
      else
        (case collectSigs (checkSignature e info publicKeys) (sigsNeeded v) substituters
                storePath info of
           (evs, st, r) \<Rightarrow> (evs, actualSigsNeeded_of (sigsNeeded v) \<le> validSigs st, r)))"

text \<open>The \<^verbatim>\<open>if (!noTrust)\<close> block without its guard (lines 92 to 131).\<close>

definition checkTrust ::
  "env \<Rightarrow> MixVerify \<Rightarrow> Store list \<Rightarrow> PublicKeys \<Rightarrow> Path \<Rightarrow> ValidPathInfo
     \<Rightarrow> counters \<Rightarrow> counters result" where
  "checkTrust e v substituters publicKeys storePath info c =
     (case isTrusted e v substituters publicKeys storePath info of
        (evs, good, Some x) \<Rightarrow> (evs, c, Some x)
      | (evs, good, None) \<Rightarrow>
          if \<not> good
          then (evs @ [PrintMsg (MsgUntrusted storePath)], c\<lparr>untrusted := untrusted c + 1\<rparr>, None)
          else (evs, c, None))"

section \<open>The content check (lines 76 to 86)\<close>

definition checkContents ::
  "env \<Rightarrow> Store \<Rightarrow> Path \<Rightarrow> ValidPathInfo \<Rightarrow> counters \<Rightarrow> counters result" where
  "checkContents e store storePath info c =
     emit [NarFromPath (uri store) storePath]
       (case narFromPath store storePath of
          Inl x \<Rightarrow> ([], c, Some x)
        | Inr nar \<Rightarrow>
            if hashSink e (htype (narHash info)) nar \<noteq> narHash info
            then ([PrintMsg (MsgModified storePath (narHash info)
                     (hashSink e (htype (narHash info)) nar))],
                  c\<lparr>corrupted := 1\<rparr>, None)
            else ([], c, None))"

section \<open>One task: \<^verbatim>\<open>doPath\<close> (lines 66 to 143)\<close>

text \<open>
  The body of the outer \<^verbatim>\<open>try\<close> (lines 68 to 137). \<^verbatim>\<open>interrupted\<close> says whether
  \<^verbatim>\<open>checkInterrupt\<close> finds a stop request.
\<close>

definition doPathBody ::
  "env \<Rightarrow> MixVerify \<Rightarrow> Store \<Rightarrow> Store list \<Rightarrow> PublicKeys \<Rightarrow> bool \<Rightarrow> Path
     \<Rightarrow> counters \<Rightarrow> counters result" where
  "doPathBody e v store substituters publicKeys interrupted storePath c =
     (if interrupted then ([], c, Some Interrupted)
      else
        emit [QueryPathInfo (uri store) storePath]
          (case queryPathInfo store storePath of
             Inl x \<Rightarrow> ([], c, Some x)
           | Inr info \<Rightarrow>
               andThen
                 (andThen
                    (if \<not> noContents v then checkContents e store storePath info c
                     else ([], c, None))
                    (\<lambda>c1. if \<not> noTrust v
                       then checkTrust e v substituters publicKeys storePath info c1
                       else ([], c1, None)))
                 (\<lambda>c2. ([], c2\<lparr>done' := done' c2 + 1\<rparr>, None))))"

text \<open>The outer handler (lines 139 to 142).\<close>

definition doPath ::
  "env \<Rightarrow> MixVerify \<Rightarrow> Store \<Rightarrow> Store list \<Rightarrow> PublicKeys \<Rightarrow> bool \<Rightarrow> Path
     \<Rightarrow> counters \<Rightarrow> counters result" where
  "doPath e v store substituters publicKeys interrupted storePath c =
     (case doPathBody e v store substituters publicKeys interrupted storePath c of
        (evs, c1, Some (Error m)) \<Rightarrow>
          (evs @ [PrintMsg (MsgError m)], c1\<lparr>failed := failed c1 + 1\<rparr>, None)
      | r \<Rightarrow> r)"

section \<open>The run: \<^verbatim>\<open>verifyPaths\<close> (lines 29 to 158)\<close>

text \<open>
  Modelled from the spec: the thread pool and the stop request. The tasks touch shared
  state only through the four atomic counters, which no task reads for a decision, so
  the model runs them one after the other in the order of submission. An exception
  that leaves a task ends the run: \<^verbatim>\<open>pool.process()\<close> throws it again. \<^verbatim>\<open>cancel\<close> is
  \<^verbatim>\<open>Some n\<close> when the stop request arrives after \<^verbatim>\<open>n\<close> tasks have passed their
  \<^verbatim>\<open>checkInterrupt\<close>, and \<^verbatim>\<open>None\<close> when it never arrives.
\<close>

fun processPaths ::
  "env \<Rightarrow> MixVerify \<Rightarrow> Store \<Rightarrow> Store list \<Rightarrow> PublicKeys \<Rightarrow> nat option \<Rightarrow> Path list
     \<Rightarrow> counters \<Rightarrow> counters result" where
  "processPaths e v store substituters publicKeys cancel [] c = ([], c, None)"
| "processPaths e v store substituters publicKeys cancel (storePath # rest) c =
     andThen (doPath e v store substituters publicKeys (cancel = Some 0) storePath c)
       (processPaths e v store substituters publicKeys (map_option (\<lambda>n. n - 1) cancel) rest)"

text \<open>Lines 33 to 35: every substituter is opened, in order; the first failure ends the loop.\<close>

fun openSubstituters :: "env \<Rightarrow> string list \<Rightarrow> Store list \<Rightarrow> (Store list) result" where
  "openSubstituters e [] substituters = ([], substituters, None)"
| "openSubstituters e (s # rest) substituters =
     emit [OpenStoreAt s]
       (case openStoreAt e s of
          Inl x \<Rightarrow> ([], substituters, Some x)
        | Inr store2 \<Rightarrow> openSubstituters e rest (substituters @ [store2]))"

text \<open>
  \<^verbatim>\<open>verifyPaths\<close> never returns: it leaves with \<^verbatim>\<open>Exit\<close> (line 154) or with the exception
  of a collaborator. Its result here is the trace, the counters as they stand when it is
  left (\<^verbatim>\<open>None\<close> before line 39 has created them) and the exception.
\<close>

datatype thrown = Exit int | Thrown exn

definition verifyPaths ::
  "env \<Rightarrow> MixVerify \<Rightarrow> nat option \<Rightarrow> Store \<Rightarrow> Path list
     \<Rightarrow> event list \<times> counters option \<times> thrown" where
  "verifyPaths e v cancel store storePaths =
     (case openSubstituters e (substituterUris v) [] of
        (evs0, substituters, Some x) \<Rightarrow> (evs0, None, Thrown x)
      | (evs0, substituters, None) \<Rightarrow>
          (case getDefaultPublicKeys e of
             Inl x \<Rightarrow> (evs0 @ [GetDefaultPublicKeys], None, Thrown x)
           | Inr publicKeys \<Rightarrow>
               (case processPaths e v store substituters publicKeys cancel storePaths noCounts of
                  (evs, c, Some x) \<Rightarrow> (evs0 @ [GetDefaultPublicKeys] @ evs, Some c, Thrown x)
                | (evs, c, None) \<Rightarrow>
                    (evs0 @ [GetDefaultPublicKeys] @ evs, Some c, Exit (exitStatus c)))))"

section \<open>Notions used in the statements\<close>

text \<open>
  The signatures that a substituter records for a path, and all the signatures supplied
  for a path: its local ones and those of every substituter.
\<close>

definition substituterSigs :: "Path \<Rightarrow> Store \<Rightarrow> string set" where
  "substituterSigs storePath store2 =
     (case queryPathInfo store2 storePath of Inl x \<Rightarrow> {} | Inr info2 \<Rightarrow> set (sigs info2))"

definition suppliedSigs :: "Store list \<Rightarrow> Path \<Rightarrow> ValidPathInfo \<Rightarrow> string set" where
  "suppliedSigs substituters storePath info =
     set (sigs info) \<union> \<Union> (substituterSigs storePath ` set substituters)"

text \<open>
  The invariant of \<^verbatim>\<open>sigsSeen\<close> and \<^verbatim>\<open>validSigs\<close>: the count is the number of signatures seen
  that verify.
\<close>

definition countedOnce :: "(string \<Rightarrow> exn + bool) \<Rightarrow> sigstate \<Rightarrow> bool" where
  "countedOnce chk st \<longleftrightarrow>
     finite (sigsSeen st) \<and> validSigs st = of_nat (card {s \<in> sigsSeen st. chk s = Inr True})"

text \<open>
  A substituter whose query for a path throws an \<^verbatim>\<open>Error\<close>, at \<^verbatim>\<open>isValidPath\<close> or at
  \<^verbatim>\<open>queryPathInfo\<close>, and the calls made on it until then.
\<close>

definition queryFails :: "Store \<Rightarrow> Path \<Rightarrow> string \<Rightarrow> bool" where
  "queryFails store2 storePath m \<longleftrightarrow>
     isValidPath store2 storePath = Inl (Error m) \<or>
     isValidPath store2 storePath = Inr True \<and> queryPathInfo store2 storePath = Inl (Error m)"

definition queryEvents :: "Store \<Rightarrow> Path \<Rightarrow> event list" where
  "queryEvents store2 storePath =
     (if isValidPath store2 storePath = Inr True
      then [IsValidPath (uri store2) storePath, QueryPathInfo (uri store2) storePath]
      else [IsValidPath (uri store2) storePath])"

text \<open>
  Two results are related when they have the same events and the same exception and
  their states are related. A relation on the counters respects the updates when each
  of the four updates of the engine, done on both sides, keeps it. \<^verbatim>\<open>sameButFailed\<close> is
  the relation of two counter states that differ by one failed path.
\<close>

definition respectsUpdates :: "(counters \<Rightarrow> counters \<Rightarrow> bool) \<Rightarrow> bool" where
  "respectsUpdates R \<longleftrightarrow>
     (\<forall>c d. R c d \<longrightarrow>
        R (c\<lparr>corrupted := 1\<rparr>) (d\<lparr>corrupted := 1\<rparr>) \<and>
        R (c\<lparr>untrusted := untrusted c + 1\<rparr>) (d\<lparr>untrusted := untrusted d + 1\<rparr>) \<and>
        R (c\<lparr>done' := done' c + 1\<rparr>) (d\<lparr>done' := done' d + 1\<rparr>) \<and>
        R (c\<lparr>failed := failed c + 1\<rparr>) (d\<lparr>failed := failed d + 1\<rparr>))"

definition related :: "('s \<Rightarrow> 's \<Rightarrow> bool) \<Rightarrow> 's result \<Rightarrow> 's result \<Rightarrow> bool" where
  "related R r1 r2 \<longleftrightarrow>
     fst r1 = fst r2 \<and> snd (snd r1) = snd (snd r2) \<and> R (fst (snd r1)) (fst (snd r2))"

definition sameButFailed :: "counters \<Rightarrow> counters \<Rightarrow> bool" where
  "sameButFailed c d \<longleftrightarrow>
     done' d = done' c \<and> untrusted d = untrusted c \<and> failed d = failed c + 1"

section \<open>Sample stores\<close>

text \<open>
  Concrete collaborators on which the engine is run below. The stand-in for the hash of
  an archive is the archive itself, the archive of a path is its name, and a signature
  verifies when it starts with \<^verbatim>\<open>ok\<close>.
\<close>

definition sampleInfo :: "string \<Rightarrow> bool \<Rightarrow> string list \<Rightarrow> ValidPathInfo" where
  "sampleInfo d u ss = \<lparr>narHash = \<lparr>htype = htSHA256, digest = d\<rparr>, ultimate = u, sigs = ss\<rparr>"

text \<open>
  The primary store: \<^verbatim>\<open>/ok\<close> is intact and ultimate; \<^verbatim>\<open>/mod1\<close> and \<^verbatim>\<open>/mod2\<close> are ultimate
  and were modified; \<^verbatim>\<open>/nosig\<close> is intact with no signature; \<^verbatim>\<open>/sig1\<close> is intact with the
  signature \<^verbatim>\<open>ok1\<close>; \<^verbatim>\<open>/unreadable\<close> has metadata and an archive that cannot be read; no
  other path is known.
\<close>

definition sampleStore :: Store where
  "sampleStore =
     \<lparr>uri = ''local'',
      queryPathInfo = (\<lambda>p.
        if p = ''/ok'' then Inr (sampleInfo p True [])
        else if p = ''/mod1'' \<or> p = ''/mod2'' then Inr (sampleInfo ''recorded'' True [])
        else if p = ''/nosig'' then Inr (sampleInfo p False [])
        else if p = ''/sig1'' then Inr (sampleInfo p False [''ok1''])
        else if p = ''/unreadable'' then Inr (sampleInfo p True [])
        else Inl (Error ''path is not valid'')),
      narFromPath = (\<lambda>p. if p = ''/unreadable'' then Inl (Error ''read error'') else Inr p),
      isValidPath = (\<lambda>p. Inr True)\<rparr>"

text \<open>A substituter that has every path, with the given signatures.\<close>

definition sampleSubstituter :: "string \<Rightarrow> string list \<Rightarrow> Store" where
  "sampleSubstituter u ss =
     \<lparr>uri = u,
      queryPathInfo = (\<lambda>p. Inr (sampleInfo p False ss)),
      narFromPath = (\<lambda>p. Inr p),
      isValidPath = (\<lambda>p. Inr True)\<rparr>"

text \<open>A substituter that was opened and fails at every query.\<close>

definition downSubstituter :: Store where
  "downSubstituter =
     \<lparr>uri = ''down'',
      queryPathInfo = (\<lambda>p. Inl (Error ''connection refused'')),
      narFromPath = (\<lambda>p. Inl (Error ''connection refused'')),
      isValidPath = (\<lambda>p. Inl (Error ''connection refused''))\<rparr>"

definition sampleCheck :: "string \<Rightarrow> exn + bool" where
  "sampleCheck sig = Inr (take 2 sig = ''ok'')"

definition sampleEnv :: env where
  "sampleEnv =
     \<lparr>openStoreAt = (\<lambda>u.
        if u = ''s1'' then Inr (sampleSubstituter ''s1'' [''ok1''])
        else if u = ''s2'' then Inr (sampleSubstituter ''s2'' [''ok2''])
        else if u = ''s3'' then Inr (sampleSubstituter ''s3'' [''ok3''])
        else if u = ''down'' then Inr downSubstituter
        else Inl (Error ''cannot open store'')),
      getDefaultPublicKeys = Inr Map.empty,
      hashSink = (\<lambda>t nar. \<lparr>htype = t, digest = nar\<rparr>),
      checkSignature = (\<lambda>info keys. sampleCheck)\<rparr>"

section \<open>Properties\<close>

subsection \<open>Sequencing\<close>

lemma emit_triple [simp]: "emit es (evs, s, r) = (es @ evs, s, r)"
  by (simp add: emit_def)

lemma emit_Nil [simp]: "emit [] r = r"
  by (simp add: emit_def)

lemma emit_emit [simp]: "emit a (emit b r) = emit (a @ b) r"
  by (simp add: emit_def)

lemma snd_emit [simp]: "snd (emit es r) = snd r"
  by (simp add: emit_def)

lemma fst_emit [simp]: "fst (emit es r) = es @ fst r"
  by (simp add: emit_def)

lemma andThen_None [simp]: "andThen (evs, s, None) f = emit evs (f s)"
  by (simp add: andThen_def)

lemma andThen_Some [simp]: "andThen (evs, s, Some x) f = (evs, s, Some x)"
  by (simp add: andThen_def)

lemma catchError_simps [simp]:
  "catchError (evs, s, None) = (evs, s, None)"
  "catchError (evs, s, Some (Error m)) = (evs @ [PrintMsg (MsgError m)], s, None)"
  "catchError (evs, s, Some Interrupted) = (evs, s, Some Interrupted)"
  by (simp_all add: catchError_def)

lemma andThen_eq_NoneD:
  assumes "andThen r f = (evs, s', None)"
  obtains e1 s1 e2 where "r = (e1, s1, None)" "f s1 = (e2, s', None)" "evs = e1 @ e2"
proof -
  obtain e1 s1 r1 where r: "r = (e1, s1, r1)" by (metis prod_cases3)
  obtain e2 s2 r2 where f: "f s1 = (e2, s2, r2)" by (metis prod_cases3)
  from assms r f have "r1 = None \<and> s2 = s' \<and> r2 = None \<and> evs = e1 @ e2"
    by (cases r1) auto
  with r f that show thesis by blast
qed

lemma andThen_emit: "andThen (emit es r) f = emit es (andThen r f)"
  by (cases r rule: prod_cases3; cases "snd (snd r)") (auto simp: andThen_def emit_def)

lemma andThen_assoc: "andThen (andThen r f) g = andThen r (\<lambda>s. andThen (f s) g)"
proof (cases r rule: prod_cases3)
  case (fields evs s x)
  show ?thesis
  proof (cases x)
    case None
    with fields show ?thesis by (simp add: andThen_emit)
  next
    case (Some a)
    with fields show ?thesis by simp
  qed
qed

lemma snd_andThen_cong:
  assumes "\<And>s. snd (f s) = snd (g s)"
  shows "snd (andThen r f) = snd (andThen r g)"
proof (cases r rule: prod_cases3)
  case (fields evs s x)
  with assms show ?thesis by (cases x) auto
qed

subsection \<open>Evaluation of the sample runs\<close>

lemmas engine_defs =
  verifyPaths_def parseFlags_def MixVerify_new_def noCounts_def doPath_def doPathBody_def
  checkContents_def checkTrust_def isTrusted_def collectSigs_def querySubstituter_def
  actualSigsNeeded_of_def exitStatus_def

lemmas sample_defs =
  sampleEnv_def sampleStore_def sampleSubstituter_def downSubstituter_def sampleInfo_def
  sampleCheck_def

lemma run_three_problems:
  "verifyPaths sampleEnv (parseFlags 0 []) None sampleStore [''/mod1'', ''/nosig'', ''/gone''] =
     ([GetDefaultPublicKeys,
       QueryPathInfo ''local'' ''/mod1'', NarFromPath ''local'' ''/mod1'',
       PrintMsg (MsgModified ''/mod1'' \<lparr>htype = htSHA256, digest = ''recorded''\<rparr>
         \<lparr>htype = htSHA256, digest = ''/mod1''\<rparr>),
       QueryPathInfo ''local'' ''/nosig'', NarFromPath ''local'' ''/nosig'',
       PrintMsg (MsgUntrusted ''/nosig''),
       QueryPathInfo ''local'' ''/gone'', PrintMsg (MsgError ''path is not valid'')],
      Some \<lparr>untrusted = 1, corrupted = 1, done' = 2, failed = 1\<rparr>, Exit 7)"
  by (simp add: engine_defs sample_defs word_le_nat_alt)

lemma loop_two_substituters:
  "substituterLoop sampleCheck ''/nosig'' 2
     [sampleSubstituter ''s1'' [''ok1''], sampleSubstituter ''s2'' [''ok2'']]
     \<lparr>sigsSeen = {}, validSigs = 0\<rparr> =
   ([IsValidPath ''s1'' ''/nosig'', QueryPathInfo ''s1'' ''/nosig'', CheckSignature ''ok1'',
     IsValidPath ''s2'' ''/nosig'', QueryPathInfo ''s2'' ''/nosig'', CheckSignature ''ok2''],
    \<lparr>sigsSeen = {''ok2'', ''ok1''}, validSigs = 2\<rparr>, None)"
  by (simp add: engine_defs sample_defs word_le_nat_alt)

lemma run_short_circuit:
  "verifyPaths sampleEnv
     (parseFlags 0 [NoContents, Substituter ''s1'', Substituter ''s2'', Substituter ''s3'',
        SigsNeeded 2])
     None sampleStore [''/nosig''] =
   ([OpenStoreAt ''s1'', OpenStoreAt ''s2'', OpenStoreAt ''s3'', GetDefaultPublicKeys,
     QueryPathInfo ''local'' ''/nosig'',
     IsValidPath ''s1'' ''/nosig'', QueryPathInfo ''s1'' ''/nosig'', CheckSignature ''ok1'',
     IsValidPath ''s2'' ''/nosig'', QueryPathInfo ''s2'' ''/nosig'', CheckSignature ''ok2''],
    Some \<lparr>untrusted = 0, corrupted = 0, done' = 1, failed = 0\<rparr>, Exit 0)"
  by (simp add: engine_defs sample_defs word_le_nat_alt)

lemma collect_duplicate:
  "collectSigs sampleCheck 2 [sampleSubstituter ''s1'' [''ok1'']] ''/sig1''
     (sampleInfo ''/sig1'' False [''ok1'']) =
   ([CheckSignature ''ok1'', IsValidPath ''s1'' ''/sig1'', QueryPathInfo ''s1'' ''/sig1''],
    \<lparr>sigsSeen = {''ok1''}, validSigs = 1\<rparr>, None)"
  by (simp add: engine_defs sample_defs word_le_nat_alt)

lemma run_duplicate_untrusted:
  "verifyPaths sampleEnv (parseFlags 0 [NoContents, Substituter ''s1'', SigsNeeded 2])
     None sampleStore [''/sig1''] =
   ([OpenStoreAt ''s1'', GetDefaultPublicKeys, QueryPathInfo ''local'' ''/sig1'',
     CheckSignature ''ok1'', IsValidPath ''s1'' ''/sig1'', QueryPathInfo ''s1'' ''/sig1'',
     PrintMsg (MsgUntrusted ''/sig1'')],
    Some \<lparr>untrusted = 1, corrupted = 0, done' = 1, failed = 0\<rparr>, Exit 2)"
  by (simp add: engine_defs sample_defs word_le_nat_alt)

lemma doPath_ok:
  "doPath sampleEnv (parseFlags 0 [Substituter ''s1'']) sampleStore
     [sampleSubstituter ''s1'' [''ok1'']] Map.empty False ''/ok'' noCounts =
   ([QueryPathInfo ''local'' ''/ok'', NarFromPath ''local'' ''/ok''],
    \<lparr>untrusted = 0, corrupted = 0, done' = 1, failed = 0\<rparr>, None)"
  by (simp add: engine_defs sample_defs word_le_nat_alt)

lemma run_open_fails:
  "verifyPaths sampleEnv
     (parseFlags 0 [NoTrust, Substituter ''s1'', Substituter ''nowhere'', Substituter ''s2''])
     None sampleStore [''/gone''] =
   (map OpenStoreAt [''s1'', ''nowhere''], None, Thrown (Error ''cannot open store''))"
  by (simp add: engine_defs sample_defs word_le_nat_alt)

lemma run_open_succeeds:
  "verifyPaths sampleEnv (parseFlags 0 [NoTrust, Substituter ''s1'', Substituter ''s2''])
     None sampleStore [''/ok''] =
   (map OpenStoreAt [''s1'', ''s2''] @ GetDefaultPublicKeys #
      [QueryPathInfo ''local'' ''/ok'', NarFromPath ''local'' ''/ok''],
    Some \<lparr>untrusted = 0, corrupted = 0, done' = 1, failed = 0\<rparr>, Exit 0)"
  by (simp add: engine_defs sample_defs word_le_nat_alt)

lemma down_fails: "queryFails downSubstituter ''/nosig'' ''connection refused''"
  by (simp add: queryFails_def downSubstituter_def)

lemma loop_down_then_s1:
  "substituterLoop sampleCheck ''/nosig'' 1
     (downSubstituter # [sampleSubstituter ''s1'' [''ok1'']])
     \<lparr>sigsSeen = {}, validSigs = 0\<rparr> =
   ([IsValidPath ''down'' ''/nosig'', PrintMsg (MsgError ''connection refused''),
     IsValidPath ''s1'' ''/nosig'', QueryPathInfo ''s1'' ''/nosig'', CheckSignature ''ok1''],
    \<lparr>sigsSeen = {''ok1''}, validSigs = 1\<rparr>, None)"
  by (simp add: engine_defs sample_defs word_le_nat_alt)

lemma doPath_down_then_s1:
  "doPath sampleEnv (parseFlags 0 [NoContents]) sampleStore
     ([] @ downSubstituter # [sampleSubstituter ''s1'' [''ok1'']]) Map.empty False ''/nosig''
     noCounts =
   ([QueryPathInfo ''local'' ''/nosig'',
     IsValidPath ''down'' ''/nosig'', PrintMsg (MsgError ''connection refused''),
     IsValidPath ''s1'' ''/nosig'', QueryPathInfo ''s1'' ''/nosig'', CheckSignature ''ok1''],
    \<lparr>untrusted = 0, corrupted = 0, done' = 1, failed = 0\<rparr>, None)"
  by (simp add: engine_defs sample_defs word_le_nat_alt)

lemma body_unreadable:
  "doPathBody sampleEnv (parseFlags 0 []) sampleStore [] Map.empty False ''/unreadable'' noCounts =
   ([QueryPathInfo ''local'' ''/unreadable'', NarFromPath ''local'' ''/unreadable''],
    noCounts, Some (Error ''read error''))"
  by (simp add: engine_defs sample_defs word_le_nat_alt)

lemma run_without_unreadable:
  "processPaths sampleEnv (parseFlags 0 []) sampleStore [] Map.empty None
     ([''/ok''] @ [''/nosig'']) noCounts =
   ([QueryPathInfo ''local'' ''/ok'', NarFromPath ''local'' ''/ok'',
     QueryPathInfo ''local'' ''/nosig'', NarFromPath ''local'' ''/nosig'',
     PrintMsg (MsgUntrusted ''/nosig'')],
    \<lparr>untrusted = 1, corrupted = 0, done' = 2, failed = 0\<rparr>, None)"
  by (simp add: engine_defs sample_defs word_le_nat_alt)

lemma run_with_unreadable:
  "verifyPaths sampleEnv (parseFlags 0 []) None sampleStore [''/ok'', ''/unreadable'', ''/nosig''] =
   ([GetDefaultPublicKeys,
     QueryPathInfo ''local'' ''/ok'', NarFromPath ''local'' ''/ok'',
     QueryPathInfo ''local'' ''/unreadable'', NarFromPath ''local'' ''/unreadable'',
     PrintMsg (MsgError ''read error''),
     QueryPathInfo ''local'' ''/nosig'', NarFromPath ''local'' ''/nosig'',
     PrintMsg (MsgUntrusted ''/nosig'')],
    Some \<lparr>untrusted = 1, corrupted = 0, done' = 2, failed = 1\<rparr>, Exit 6)"
  by (simp add: engine_defs sample_defs word_le_nat_alt)

subsection \<open>The counters of one task\<close>

lemma checkContents_frame:
  "checkContents e store p info c = (evs, c', r) \<Longrightarrow>
     done' c' = done' c \<and> failed c' = failed c \<and> untrusted c' = untrusted c"
  by (auto simp: checkContents_def split: sum.splits if_splits)

lemma checkTrust_frame:
  "checkTrust e v subs keys p info c = (evs, c', r) \<Longrightarrow>
     done' c' = done' c \<and> failed c' = failed c \<and> corrupted c' = corrupted c"
  by (auto simp: checkTrust_def split: prod.splits option.splits if_splits)

text \<open>The body never touches \<^verbatim>\<open>failed\<close>, and it increments \<^verbatim>\<open>done\<close> iff it ends normally.\<close>

lemma doPathBody_counts:
  assumes "doPathBody e v store subs keys i p c = (evs, c', r)"
  shows "failed c' = failed c \<and> done' c' = (if r = None then done' c + 1 else done' c)"
proof (cases "i \<or> (\<exists>x. queryPathInfo store p = Inl x)")
  case True
  then show ?thesis using assms by (auto simp: doPathBody_def split: if_splits)
next
  case False
  then obtain info where info: "queryPathInfo store p = Inr info" and i: "\<not> i"
    by (cases "queryPathInfo store p") auto
  obtain e1 c1 r1 where s1:
    "(if \<not> noContents v then checkContents e store p info c else ([], c, None)) = (e1, c1, r1)"
    by (metis prod_cases3)
  have f1: "done' c1 = done' c \<and> failed c1 = failed c"
    using s1 checkContents_frame by (auto split: if_splits)
  obtain e2 c2 r2 where s2:
    "(if \<not> noTrust v then checkTrust e v subs keys p info c1 else ([], c1, None)) = (e2, c2, r2)"
    by (metis prod_cases3)
  have f2: "done' c2 = done' c1 \<and> failed c2 = failed c1"
    using s2 checkTrust_frame by (auto split: if_splits)
  show ?thesis
    using assms i info s1 s2 f1 f2
    by (cases r1; cases r2) (auto simp: doPathBody_def)
qed

text \<open>A task that ends normally has incremented exactly one of \<^verbatim>\<open>done\<close> and \<^verbatim>\<open>failed\<close>.\<close>

lemma doPath_counts:
  assumes "doPath e v store subs keys i p c = (evs, c', None)"
  shows "(done' c' = done' c + 1 \<and> failed c' = failed c) \<or>
         (done' c' = done' c \<and> failed c' = failed c + 1)"
proof -
  obtain e1 c1 r1 where b: "doPathBody e v store subs keys i p c = (e1, c1, r1)"
    by (metis prod_cases3)
  from doPathBody_counts [OF b] assms b show ?thesis
    by (auto simp: doPath_def split: option.splits exn.splits if_splits)
qed

lemma unat_Suc_bound:
  fixes x :: size_t
  assumes "unat x + 1 < 2 ^ 64"
  shows "unat (x + 1) = unat x + 1"
  using assms by (simp add: unat_word_ariths)

lemma processPaths_counts:
  "processPaths e v store subs keys cancel ps c = (evs, c', None) \<Longrightarrow>
   unat (done' c) + unat (failed c) + length ps < 2 ^ 64 \<Longrightarrow>
   unat (done' c') + unat (failed c') = unat (done' c) + unat (failed c) + length ps"
proof (induction ps arbitrary: c cancel evs)
  case Nil
  then show ?case by simp
next
  case (Cons p ps)
  from Cons.prems(1) obtain e1 c1 e2 where
    d: "doPath e v store subs keys (cancel = Some 0) p c = (e1, c1, None)" and
    r: "processPaths e v store subs keys (map_option (\<lambda>n. n - 1) cancel) ps c1 = (e2, c', None)"
    by (auto elim: andThen_eq_NoneD)
  have step: "unat (done' c1) + unat (failed c1) = unat (done' c) + unat (failed c) + 1"
    using doPath_counts [OF d] Cons.prems(2)
    by (auto simp: unat_Suc_bound)
  with Cons.prems(2) have "unat (done' c1) + unat (failed c1) + length ps < 2 ^ 64"
    by simp
  from Cons.IH [OF r this] step show ?case by simp
qed

subsection \<open>The signature count\<close>

lemma countedOnce_valid:
  assumes inv: "countedOnce chk st" and new: "sig \<notin> sigsSeen st" and ok: "chk sig = Inr True"
  shows "countedOnce chk
           (st\<lparr>sigsSeen := insert sig (sigsSeen st), validSigs := validSigs st + 1\<rparr>)"
proof -
  have "{s \<in> insert sig (sigsSeen st). chk s = Inr True} =
        insert sig {s \<in> sigsSeen st. chk s = Inr True}"
    using ok by auto
  moreover have "sig \<notin> {s \<in> sigsSeen st. chk s = Inr True}"
    using new by simp
  moreover have "finite {s \<in> sigsSeen st. chk s = Inr True}"
    using inv by (simp add: countedOnce_def)
  ultimately have "card {s \<in> insert sig (sigsSeen st). chk s = Inr True} =
        Suc (card {s \<in> sigsSeen st. chk s = Inr True})"
    by simp
  with inv show ?thesis by (simp add: countedOnce_def)
qed

lemma countedOnce_invalid:
  assumes inv: "countedOnce chk st" and bad: "chk sig \<noteq> Inr True"
  shows "countedOnce chk (st\<lparr>sigsSeen := insert sig (sigsSeen st)\<rparr>)"
proof -
  have "{s \<in> insert sig (sigsSeen st). chk s = Inr True} = {s \<in> sigsSeen st. chk s = Inr True}"
    using bad by auto
  with inv show ?thesis by (simp add: countedOnce_def)
qed

lemma doSigs_countedOnce:
  "doSigs chk ss st = (evs, st', r) \<Longrightarrow> countedOnce chk st \<Longrightarrow>
     countedOnce chk st' \<and> sigsSeen st' \<subseteq> sigsSeen st \<union> set ss"
proof (induction ss arbitrary: st evs)
  case Nil
  then show ?case by simp
next
  case (Cons sig ss)
  show ?case
  proof (cases "sig \<in> sigsSeen st")
    case True
    with Cons.prems have "doSigs chk ss st = (evs, st', r)" by simp
    from Cons.IH [OF this Cons.prems(2)] show ?thesis by auto
  next
    case new: False
    show ?thesis
    proof (cases "chk sig")
      case (Inl x)
      with new Cons.prems(1) have "st' = st\<lparr>sigsSeen := insert sig (sigsSeen st)\<rparr>" by auto
      with countedOnce_invalid [OF Cons.prems(2), of sig] Inl show ?thesis by auto
    next
      case (Inr ok)
      let ?st1 = "if ok
        then st\<lparr>sigsSeen := insert sig (sigsSeen st), validSigs := validSigs st + 1\<rparr>
        else st\<lparr>sigsSeen := insert sig (sigsSeen st)\<rparr>"
      obtain e1 where rec: "doSigs chk ss ?st1 = (e1, st', r)"
        using Cons.prems(1) new Inr by (cases "doSigs chk ss ?st1") auto
      have inv: "countedOnce chk ?st1"
        using countedOnce_valid [OF Cons.prems(2) new] countedOnce_invalid [OF Cons.prems(2), of sig] Inr
        by auto
      from Cons.IH [OF rec inv] show ?thesis by (auto split: if_splits)
    qed
  qed
qed

lemma querySubstituter_countedOnce:
  assumes "querySubstituter chk p store2 st = (evs, st', r)" "countedOnce chk st"
  shows "countedOnce chk st' \<and> sigsSeen st' \<subseteq> sigsSeen st \<union> substituterSigs p store2"
proof (cases "\<exists>info2. isValidPath store2 p = Inr True \<and> queryPathInfo store2 p = Inr info2")
  case True
  then obtain info2 where q: "isValidPath store2 p = Inr True" "queryPathInfo store2 p = Inr info2"
    by blast
  with assms(1) obtain e1 where "doSigs chk (sigs info2) st = (e1, st', r)"
    by (cases "doSigs chk (sigs info2) st") (auto simp: querySubstituter_def)
  from doSigs_countedOnce [OF this assms(2)] q show ?thesis
    by (simp add: substituterSigs_def)
next
  case False
  with assms(1) have "st' = st"
    by (auto simp: querySubstituter_def split: sum.splits if_splits)
  with assms(2) show ?thesis by simp
qed

lemma catchError_state: "fst (snd (catchError r)) = fst (snd r)"
  by (auto simp: catchError_def split: option.splits exn.splits)

lemma substituterLoop_countedOnce:
  "substituterLoop chk p n subs st = (evs, st', r) \<Longrightarrow> countedOnce chk st \<Longrightarrow>
     countedOnce chk st' \<and> sigsSeen st' \<subseteq> sigsSeen st \<union> \<Union> (substituterSigs p ` set subs)"
proof (induction subs arbitrary: st evs)
  case Nil
  then show ?case by simp
next
  case (Cons store2 subs)
  show ?case
  proof (cases "n \<le> validSigs st")
    case True
    with Cons.prems show ?thesis by simp
  next
    case False
    obtain e1 s1 r1 where q: "querySubstituter chk p store2 st = (e1, s1, r1)"
      by (metis prod_cases3)
    note q1 = querySubstituter_countedOnce [OF q Cons.prems(2)]
    show ?thesis
    proof (cases "catchError (e1, s1, r1)")
      case (fields e2 s2 r2)
      with catchError_state [of "(e1, s1, r1)"] have s2: "s2 = s1" by simp
      show ?thesis
      proof (cases r2)
        case None
        with fields s2 q False Cons.prems(1) obtain e3 where
          "substituterLoop chk p n subs s1 = (e3, st', r)"
          by (cases "substituterLoop chk p n subs s1") auto
        from Cons.IH [OF this] q1 show ?thesis by auto
      next
        case (Some x)
        with fields s2 q False Cons.prems(1) have "st' = s1" by auto
        with q1 show ?thesis by auto
      qed
    qed
  qed
qed

lemma unat_of_nat_le: "unat (of_nat k :: size_t) \<le> k"
  by (simp add: unat_of_nat)

subsection \<open>The \<^verbatim>\<open>corrupted\<close> counter\<close>

text \<open>Line 82 stores 1: whatever the paths, the counter ends at its first value or at 1.\<close>

lemma checkContents_corrupted:
  "checkContents e store p info c = (evs, c', r) \<Longrightarrow> corrupted c' = corrupted c \<or> corrupted c' = 1"
  by (auto simp: checkContents_def split: sum.splits if_splits)

lemma doPathBody_corrupted:
  assumes "doPathBody e v store subs keys i p c = (evs, c', r)"
  shows "corrupted c' = corrupted c \<or> corrupted c' = 1"
proof (cases "i \<or> (\<exists>x. queryPathInfo store p = Inl x)")
  case True
  then show ?thesis using assms by (auto simp: doPathBody_def split: if_splits)
next
  case False
  then obtain info where info: "queryPathInfo store p = Inr info" and i: "\<not> i"
    by (cases "queryPathInfo store p") auto
  obtain e1 c1 r1 where s1:
    "(if \<not> noContents v then checkContents e store p info c else ([], c, None)) = (e1, c1, r1)"
    by (metis prod_cases3)
  have f1: "corrupted c1 = corrupted c \<or> corrupted c1 = 1"
    using s1 checkContents_corrupted by (auto split: if_splits)
  obtain e2 c2 r2 where s2:
    "(if \<not> noTrust v then checkTrust e v subs keys p info c1 else ([], c1, None)) = (e2, c2, r2)"
    by (metis prod_cases3)
  have f2: "corrupted c2 = corrupted c1"
    using s2 checkTrust_frame by (auto split: if_splits)
  show ?thesis
    using assms i info s1 s2 f1 f2
    by (cases r1; cases r2) (auto simp: doPathBody_def)
qed

lemma doPath_corrupted:
  assumes "doPath e v store subs keys i p c = (evs, c', r)"
  shows "corrupted c' = corrupted c \<or> corrupted c' = 1"
proof -
  obtain e1 c1 r1 where b: "doPathBody e v store subs keys i p c = (e1, c1, r1)"
    by (metis prod_cases3)
  from doPathBody_corrupted [OF b] assms b show ?thesis
    by (auto simp: doPath_def split: option.splits exn.splits)
qed

lemma processPaths_corrupted:
  "processPaths e v store subs keys cancel ps c = (evs, c', r) \<Longrightarrow>
     corrupted c' = corrupted c \<or> corrupted c' = 1"
proof (induction ps arbitrary: c cancel evs)
  case Nil
  then show ?case by simp
next
  case (Cons p ps)
  obtain e1 c1 r1 where d: "doPath e v store subs keys (cancel = Some 0) p c = (e1, c1, r1)"
    by (metis prod_cases3)
  note d1 = doPath_corrupted [OF d]
  show ?case
  proof (cases r1)
    case (Some x)
    with d Cons.prems d1 show ?thesis by auto
  next
    case None
    with d Cons.prems obtain e2 where
      "processPaths e v store subs keys (map_option (\<lambda>n. n - 1) cancel) ps c1 = (e2, c', r)"
      by (cases "processPaths e v store subs keys (map_option (\<lambda>n. n - 1) cancel) ps c1") auto
    from Cons.IH [OF this] d1 show ?thesis by auto
  qed
qed

lemma corrupted_never_exceeds_one:
  "verifyPaths e v cancel store storePaths = (evs, Some c, t) \<Longrightarrow> corrupted c \<le> 1"
proof -
  assume "verifyPaths e v cancel store storePaths = (evs, Some c, t)"
  then obtain subs keys evs1 r where
    "processPaths e v store subs keys cancel storePaths noCounts = (evs1, c, r)"
    by (auto simp: verifyPaths_def split: prod.splits option.splits sum.splits)
  from processPaths_corrupted [OF this] show ?thesis
    by (auto simp: noCounts_def)
qed

subsection \<open>The flags\<close>

lemma actualSigsNeeded_of_max: "actualSigsNeeded_of n = max n 1"
proof (cases "n = 0")
  case True
  then show ?thesis by (simp add: actualSigsNeeded_of_def max_def)
next
  case False
  then have "0 < unat n" by (simp add: unat_gt_0)
  then have "n \<le> 1 \<Longrightarrow> n = 1"
    by (simp add: word_le_nat_alt word_unat_eq_iff)
  with False show ?thesis by (auto simp: actualSigsNeeded_of_def max_def)
qed

lemma setFlag_other:
  "(\<forall>n. SigsNeeded n \<noteq> f) \<Longrightarrow> sigsNeeded (setFlag v f) = sigsNeeded v"
  by (cases f) auto

lemma foldl_setFlag_other:
  "(\<forall>n. SigsNeeded n \<notin> set fs) \<Longrightarrow> sigsNeeded (foldl setFlag v fs) = sigsNeeded v"
  by (induction fs arbitrary: v) (auto simp: setFlag_other)

lemma parseFlags_unset:
  "(\<forall>n. SigsNeeded n \<notin> set fs) \<Longrightarrow> sigsNeeded (parseFlags uninit fs) = uninit"
  by (simp add: parseFlags_def foldl_setFlag_other MixVerify_new_def)

subsection \<open>Opening the substituters\<close>

lemma openSubstituters_events:
  "openSubstituters e uris acc = (evs, subs, r) \<Longrightarrow>
     \<exists>us. evs = map OpenStoreAt us \<and> set us \<subseteq> set uris \<and> (r = None \<longrightarrow> us = uris)"
proof (induction uris arbitrary: acc evs)
  case Nil
  then show ?case by simp
next
  case (Cons u uris)
  show ?case
  proof (cases "openStoreAt e u")
    case (Inl x)
    with Cons.prems have "evs = map OpenStoreAt [u] \<and> r = Some x" by auto
    then show ?thesis by (intro exI [of _ "[u]"]) simp
  next
    case (Inr store2)
    with Cons.prems obtain e1 where
      rec: "openSubstituters e uris (acc @ [store2]) = (e1, subs, r)" and evs: "evs = OpenStoreAt u # e1"
      by (cases "openSubstituters e uris (acc @ [store2])") auto
    from Cons.IH [OF rec] obtain us where
      "e1 = map OpenStoreAt us" "set us \<subseteq> set uris" "r = None \<longrightarrow> us = uris" by blast
    with evs show ?thesis by (intro exI [of _ "u # us"]) auto
  qed
qed

lemma openSubstituters_fails:
  "u \<in> set uris \<Longrightarrow> openStoreAt e u = Inl x \<Longrightarrow>
     \<exists>y. snd (snd (openSubstituters e uris acc)) = Some y"
proof (induction uris arbitrary: acc)
  case Nil
  then show ?case by simp
next
  case (Cons a uris)
  show ?case
  proof (cases "openStoreAt e a")
    case (Inl y)
    then show ?thesis by simp
  next
    case (Inr store2)
    with Cons.prems have "u \<in> set uris" by auto
    from Cons.IH [OF this Cons.prems(2)] Inr show ?thesis by simp
  qed
qed

lemma openSubstituters_succeeds:
  "\<forall>u \<in> set uris. \<exists>s. openStoreAt e u = Inr s \<Longrightarrow>
     snd (snd (openSubstituters e uris acc)) = None"
proof (induction uris arbitrary: acc)
  case Nil
  then show ?case by simp
next
  case (Cons a uris)
  then obtain s where "openStoreAt e a = Inr s" by auto
  with Cons show ?case by simp
qed

subsection \<open>A substituter that fails\<close>

lemma substituterLoop_reached:
  "n \<le> validSigs st \<Longrightarrow> substituterLoop chk p n subs st = ([], st, None)"
  by (cases subs) auto

lemma substituterLoop_append:
  "substituterLoop chk p n (xs @ ys) st =
     andThen (substituterLoop chk p n xs st) (substituterLoop chk p n ys)"
proof (induction xs arbitrary: st)
  case Nil
  show ?case by simp
next
  case (Cons x xs)
  show ?case
  proof (cases "n \<le> validSigs st")
    case True
    then show ?thesis by (simp add: substituterLoop_reached)
  next
    case False
    have "substituterLoop chk p n (xs @ ys) =
          (\<lambda>s. andThen (substituterLoop chk p n xs s) (substituterLoop chk p n ys))"
      by (rule ext) (rule Cons.IH)
    with False show ?thesis by (simp add: andThen_assoc)
  qed
qed

lemma failing_query:
  assumes "queryFails store2 p m"
  shows "catchError (querySubstituter chk p store2 st) =
           (queryEvents store2 p @ [PrintMsg (MsgError m)], st, None)"
  using assms by (auto simp: queryFails_def queryEvents_def querySubstituter_def)

lemma substituterLoop_failing:
  assumes "queryFails store2 p m" and "\<not> n \<le> validSigs st"
  shows "substituterLoop chk p n (store2 # rest) st =
           emit (queryEvents store2 p @ [PrintMsg (MsgError m)]) (substituterLoop chk p n rest st)"
  using assms(2) by (simp add: failing_query [OF assms(1)])

lemma substituterLoop_skip:
  assumes "queryFails store2 p m"
  shows "snd (substituterLoop chk p n (pre @ store2 # post) st) =
         snd (substituterLoop chk p n (pre @ post) st)"
proof -
  have "snd (substituterLoop chk p n (store2 # post) s) = snd (substituterLoop chk p n post s)" for s
  proof (cases "n \<le> validSigs s")
    case True
    then show ?thesis by (simp add: substituterLoop_reached)
  next
    case False
    then show ?thesis by (simp add: failing_query [OF assms])
  qed
  then show ?thesis
    unfolding substituterLoop_append by (rule snd_andThen_cong)
qed

lemma collectSigs_skip:
  assumes "queryFails store2 p m"
  shows "snd (collectSigs chk n (pre @ store2 # post) p info) =
         snd (collectSigs chk n (pre @ post) p info)"
  unfolding collectSigs_def
  by (rule snd_andThen_cong) (rule substituterLoop_skip [OF assms])

lemma isTrusted_skip:
  assumes "queryFails store2 p m"
  shows "snd (isTrusted e v (pre @ store2 # post) keys p info) =
         snd (isTrusted e v (pre @ post) keys p info)"
  using collectSigs_skip [OF assms, of "checkSignature e info keys" "sigsNeeded v" pre post info]
  by (auto simp: isTrusted_def split: prod.splits)

lemma checkTrust_skip:
  assumes "queryFails store2 p m"
  shows "snd (checkTrust e v (pre @ store2 # post) keys p info c) =
         snd (checkTrust e v (pre @ post) keys p info c)"
  using isTrusted_skip [OF assms, of e v pre post keys info]
  by (auto simp: checkTrust_def split: prod.splits option.splits)

lemma doPathBody_skip:
  assumes "queryFails store2 p m"
  shows "snd (doPathBody e v store (pre @ store2 # post) keys i p c) =
         snd (doPathBody e v store (pre @ post) keys i p c)"
proof -
  have "snd (andThen (if \<not> noTrust v
                        then checkTrust e v (pre @ store2 # post) keys p info c1
                        else ([], c1, None)) g) =
        snd (andThen (if \<not> noTrust v
                        then checkTrust e v (pre @ post) keys p info c1
                        else ([], c1, None)) g)" for info c1 and g :: "counters \<Rightarrow> counters result"
    using checkTrust_skip [OF assms, of e v pre post keys info c1]
    by (auto simp: andThen_def emit_def split: option.splits)
  then show ?thesis
    by (auto simp: doPathBody_def andThen_assoc intro!: snd_andThen_cong split: sum.splits)
qed


lemma doPath_skip:
  assumes "queryFails store2 p m"
  shows "snd (doPath e v store (pre @ store2 # post) keys i p c) =
         snd (doPath e v store (pre @ post) keys i p c)"
proof -
  obtain e1 c1 r1 where a: "doPathBody e v store (pre @ store2 # post) keys i p c = (e1, c1, r1)"
    by (metis prod_cases3)
  obtain e2 c2 r2 where b: "doPathBody e v store (pre @ post) keys i p c = (e2, c2, r2)"
    by (metis prod_cases3)
  from doPathBody_skip [OF assms, of e v store pre post keys i c] a b
  have "c1 = c2" "r1 = r2" by simp_all
  with a b show ?thesis
    by (simp add: doPath_def split: option.splits exn.splits)
qed

subsection \<open>Tasks do not read the counters\<close>

lemma related_triple [simp]:
  "related R (e1, s1, x1) (e2, s2, x2) \<longleftrightarrow> e1 = e2 \<and> x1 = x2 \<and> R s1 s2"
  by (simp add: related_def)

lemma related_emit: "related R r1 r2 \<Longrightarrow> related R (emit es r1) (emit es r2)"
  by (simp add: related_def emit_def)

lemma related_andThen:
  assumes "related R r1 r2" and "\<And>s t. R s t \<Longrightarrow> related R (f s) (g t)"
  shows "related R (andThen r1 f) (andThen r2 g)"
proof (cases r1 rule: prod_cases3)
  case r1: (fields e1 s1 x1)
  obtain e2 s2 x2 where r2: "r2 = (e2, s2, x2)" by (metis prod_cases3)
  from assms(1) r1 r2 have eq: "e2 = e1" "x2 = x1" and R: "R s1 s2" by simp_all
  show ?thesis
  proof (cases x1)
    case None
    with r1 r2 eq assms(2) [OF R] show ?thesis by (simp add: related_emit)
  next
    case (Some x)
    with r1 r2 eq R show ?thesis by simp
  qed
qed

lemma checkContents_related:
  assumes "respectsUpdates R" and "R c d"
  shows "related R (checkContents e store p info c) (checkContents e store p info d)"
  using assms by (auto simp: checkContents_def respectsUpdates_def split: sum.splits)

lemma checkTrust_related:
  assumes "respectsUpdates R" and "R c d"
  shows "related R (checkTrust e v subs keys p info c) (checkTrust e v subs keys p info d)"
  using assms
  by (auto simp: checkTrust_def respectsUpdates_def split: prod.splits option.splits)

lemma doPathBody_related:
  assumes U: "respectsUpdates R" and R: "R c d"
  shows "related R (doPathBody e v store subs keys i p c) (doPathBody e v store subs keys i p d)"
proof (cases "i \<or> (\<exists>x. queryPathInfo store p = Inl x)")
  case True
  with R show ?thesis by (auto simp: doPathBody_def)
next
  case False
  then obtain info where info: "queryPathInfo store p = Inr info" and i: "\<not> i"
    by (cases "queryPathInfo store p") auto
  have 1: "related R
      (if \<not> noContents v then checkContents e store p info c else ([], c, None))
      (if \<not> noContents v then checkContents e store p info d else ([], d, None))"
    using checkContents_related [OF U R] R by simp
  have 2: "related R
      (if \<not> noTrust v then checkTrust e v subs keys p info s else ([], s, None))
      (if \<not> noTrust v then checkTrust e v subs keys p info t else ([], t, None))"
    if "R s t" for s t
    using checkTrust_related [OF U that] that by simp
  have 3: "related R ([], s\<lparr>done' := done' s + 1\<rparr>, None) ([], t\<lparr>done' := done' t + 1\<rparr>, None)"
    if "R s t" for s t
    using U that by (simp add: respectsUpdates_def)
  show ?thesis
    using i info
    by (simp add: doPathBody_def related_emit related_andThen [OF related_andThen [OF 1 2] 3])
qed

lemma doPath_related:
  assumes U: "respectsUpdates R" and R: "R c d"
  shows "related R (doPath e v store subs keys i p c) (doPath e v store subs keys i p d)"
proof -
  obtain e1 c1 r1 where a: "doPathBody e v store subs keys i p c = (e1, c1, r1)"
    by (metis prod_cases3)
  obtain e2 c2 r2 where b: "doPathBody e v store subs keys i p d = (e2, c2, r2)"
    by (metis prod_cases3)
  from doPathBody_related [OF U R, of e v store subs keys i p] a b
  have "e2 = e1" "r2 = r1" "R c1 c2" by simp_all
  with a b U show ?thesis
    by (auto simp: doPath_def respectsUpdates_def split: option.splits exn.splits)
qed

lemma processPaths_related:
  assumes U: "respectsUpdates R"
  shows "R c d \<Longrightarrow>
     related R (processPaths e v store subs keys cancel ps c)
               (processPaths e v store subs keys cancel ps d)"
proof (induction ps arbitrary: c d cancel)
  case Nil
  then show ?case by simp
next
  case (Cons p ps)
  show ?case
    by (simp add: related_andThen [OF doPath_related [OF U Cons.prems] Cons.IH])
qed

lemma respectsUpdates_True: "respectsUpdates (\<lambda>c d. True)"
  by (simp add: respectsUpdates_def)

lemma respectsUpdates_sameButFailed: "respectsUpdates sameButFailed"
  by (simp add: respectsUpdates_def sameButFailed_def)

lemma checkTrust_exn:
  "checkTrust e v subs keys p info c = (evs, c', Some x) \<Longrightarrow> c' = c"
  by (auto simp: checkTrust_def split: prod.splits option.splits if_splits)

lemma doPathBody_exn_untrusted:
  assumes "doPathBody e v store subs keys i p c = (evs, c', Some x)"
  shows "untrusted c' = untrusted c"
proof (cases "i \<or> (\<exists>x. queryPathInfo store p = Inl x)")
  case True
  then show ?thesis using assms by (auto simp: doPathBody_def split: if_splits)
next
  case False
  then obtain info where info: "queryPathInfo store p = Inr info" and i: "\<not> i"
    by (cases "queryPathInfo store p") auto
  obtain e1 c1 r1 where s1:
    "(if \<not> noContents v then checkContents e store p info c else ([], c, None)) = (e1, c1, r1)"
    by (metis prod_cases3)
  have f1: "untrusted c1 = untrusted c"
    using s1 checkContents_frame by (auto split: if_splits)
  obtain e2 c2 r2 where s2:
    "(if \<not> noTrust v then checkTrust e v subs keys p info c1 else ([], c1, None)) = (e2, c2, r2)"
    by (metis prod_cases3)
  have f2: "r2 \<noteq> None \<Longrightarrow> c2 = c1"
    using s2 checkTrust_exn by (auto split: if_splits)
  show ?thesis
    using assms i info s1 s2 f1 f2
    by (cases r1; cases r2) (auto simp: doPathBody_def)
qed

lemma processPaths_append:
  "processPaths e v store subs keys None (xs @ ys) c =
     andThen (processPaths e v store subs keys None xs c)
       (processPaths e v store subs keys None ys)"
proof (induction xs arbitrary: c)
  case Nil
  show ?case by simp
next
  case (Cons x xs)
  have "processPaths e v store subs keys None (xs @ ys) =
        (\<lambda>s. andThen (processPaths e v store subs keys None xs s)
                 (processPaths e v store subs keys None ys))"
    by (rule ext) (rule Cons.IH)
  then show ?case by (simp add: andThen_assoc)
qed

lemma failing_task:
  assumes "doPathBody e v store subs keys False p c0 = (evs0, c0', Some (Error m))"
  shows "\<exists>c'. doPath e v store subs keys False p c = (evs0 @ [PrintMsg (MsgError m)], c', None) \<and>
           done' c' = done' c \<and> untrusted c' = untrusted c \<and> failed c' = failed c + 1"
proof -
  obtain e1 c1 r1 where b: "doPathBody e v store subs keys False p c = (e1, c1, r1)"
    by (metis prod_cases3)
  have "related (\<lambda>c d. True) (doPathBody e v store subs keys False p c0)
          (doPathBody e v store subs keys False p c)"
    by (rule doPathBody_related [OF respectsUpdates_True]) simp
  with assms b have same: "e1 = evs0" "r1 = Some (Error m)" by simp_all
  from doPathBody_counts [OF b] doPathBody_exn_untrusted [of e v store subs keys False p c e1 c1]
    b same
  have "done' c1 = done' c" "failed c1 = failed c" "untrusted c1 = untrusted c" by simp_all
  with b same show ?thesis by (simp add: doPath_def)
qed

subsection \<open>The claims\<close>

text \<open>
  C2. Whenever a run ends with \<^verbatim>\<open>Exit n\<close>, \<^verbatim>\<open>n\<close> is the bitmask of the final counters:
  bit 0 is set iff \<^verbatim>\<open>corrupted > 0\<close>, bit 1 iff \<^verbatim>\<open>untrusted > 0\<close>, bit 2 iff \<^verbatim>\<open>failed > 0\<close>, and
  \<^verbatim>\<open>n\<close> is 0 iff the three counters are 0. So the value is 1, 2 or 4 when one counter is
  positive, 3 for \<^verbatim>\<open>corrupted\<close> with \<^verbatim>\<open>untrusted\<close>, 7 for all three.
\<close>

theorem exit_status_bitmask:
  assumes "verifyPaths e v cancel store storePaths = (evs, Some c, Exit n)"
  shows "n = (if 0 < corrupted c then 1 else 0) OR (if 0 < untrusted c then 2 else 0) OR
             (if 0 < failed c then 4 else 0) \<and>
         (bit n 0 \<longleftrightarrow> 0 < corrupted c) \<and> (bit n 1 \<longleftrightarrow> 0 < untrusted c) \<and>
         (bit n 2 \<longleftrightarrow> 0 < failed c) \<and>
         (n = 0 \<longleftrightarrow> corrupted c = 0 \<and> untrusted c = 0 \<and> failed c = 0)"
proof -
  have n: "n = exitStatus c"
    using assms by (auto simp: verifyPaths_def split: prod.splits option.splits sum.splits)
  show ?thesis
    unfolding n exitStatus_def by (simp add: word_gt_0 bit_numeral_simps)
qed

text \<open>The run with one modified, one unsigned and one unknown path ends with 7.\<close>

theorem exit_status_bitmask_witness:
  "(\<exists>evs. verifyPaths sampleEnv (parseFlags 0 []) None sampleStore
            [''/mod1'', ''/nosig'', ''/gone''] =
          (evs, Some \<lparr>untrusted = 1, corrupted = 1, done' = 2, failed = 1\<rparr>, Exit 7)) \<and>
   (7 :: int) = 1 OR 2 OR 4 \<and> bit (7 :: int) 0 \<and> bit (7 :: int) 1 \<and> bit (7 :: int) 2"
  using exit_status_bitmask [OF run_three_problems] run_three_problems by simp

text \<open>
  C3. Whenever a run ends with \<^verbatim>\<open>Exit\<close> (no task was cancelled and no exception other
  than an \<^verbatim>\<open>Error\<close> left a task), \<^verbatim>\<open>done + failed\<close> is the number of paths submitted.
  The list of paths fits in memory, so its length is below \<^verbatim>\<open>2^64\<close>.
\<close>

theorem completed_plus_failed:
  assumes "verifyPaths e v cancel store storePaths = (evs, Some c, Exit n)"
    and "length storePaths < 2 ^ 64"
  shows "unat (done' c) + unat (failed c) = length storePaths"
proof -
  from assms(1) obtain subs keys evs1 where
    "processPaths e v store subs keys cancel storePaths noCounts = (evs1, c, None)"
    by (auto simp: verifyPaths_def split: prod.splits option.splits sum.splits)
  from processPaths_counts [OF this] assms(2) show ?thesis
    by (simp add: noCounts_def)
qed

theorem completed_plus_failed_witness:
  "(\<exists>evs. verifyPaths sampleEnv (parseFlags 0 []) None sampleStore
            [''/mod1'', ''/nosig'', ''/gone''] =
          (evs, Some \<lparr>untrusted = 1, corrupted = 1, done' = 2, failed = 1\<rparr>, Exit 7)) \<and>
   length [''/mod1'', ''/nosig'', ''/gone''] < (2 :: nat) ^ 64 \<and>
   unat (2 :: size_t) + unat (1 :: size_t) = length [''/mod1'', ''/nosig'', ''/gone'']"
proof -
  have small: "length [''/mod1'', ''/nosig'', ''/gone''] < (2 :: nat) ^ 64" by simp
  from completed_plus_failed [OF run_three_problems small] run_three_problems small
  show ?thesis by simp
qed

text \<open>
  C4. Once the count of valid signatures has reached the number required, the loop over
  the substituters ends: whatever substituters follow, the loop over \<^verbatim>\<open>pre @ rest\<close> does
  exactly what the loop over \<^verbatim>\<open>pre\<close> does, with the same queries and the same result. With
  a threshold of 2, no local signature and two substituters that supply one valid
  signature each, a third substituter is not queried.
\<close>

theorem substituter_loop_short_circuit:
  "substituterLoop chk p n pre st = (evs, st', None) \<Longrightarrow> n \<le> validSigs st' \<Longrightarrow>
     substituterLoop chk p n (pre @ rest) st = (evs, st', None)"
proof (induction pre arbitrary: st evs)
  case Nil
  then show ?case by (cases rest) auto
next
  case (Cons store2 pre)
  show ?case
  proof (cases "n \<le> validSigs st")
    case True
    with Cons.prems show ?thesis by simp
  next
    case False
    with Cons.prems(1) obtain e1 s1 e2 where
      q: "catchError (querySubstituter chk p store2 st) = (e1, s1, None)" and
      l: "substituterLoop chk p n pre s1 = (e2, st', None)" and evs: "evs = e1 @ e2"
      by (auto elim: andThen_eq_NoneD)
    from Cons.IH [OF l Cons.prems(2)] q evs False show ?thesis by simp
  qed
qed


theorem substituter_loop_short_circuit_witness:
  "substituterLoop sampleCheck ''/nosig'' 2
     [sampleSubstituter ''s1'' [''ok1''], sampleSubstituter ''s2'' [''ok2'']]
     \<lparr>sigsSeen = {}, validSigs = 0\<rparr> =
   ([IsValidPath ''s1'' ''/nosig'', QueryPathInfo ''s1'' ''/nosig'', CheckSignature ''ok1'',
     IsValidPath ''s2'' ''/nosig'', QueryPathInfo ''s2'' ''/nosig'', CheckSignature ''ok2''],
    \<lparr>sigsSeen = {''ok2'', ''ok1''}, validSigs = 2\<rparr>, None) \<and>
   (2 :: size_t) \<le> validSigs \<lparr>sigsSeen = {''ok2'', ''ok1''}, validSigs = 2\<rparr> \<and>
   substituterLoop sampleCheck ''/nosig'' 2
     ([sampleSubstituter ''s1'' [''ok1''], sampleSubstituter ''s2'' [''ok2'']] @
      [sampleSubstituter ''s3'' [''ok3'']])
     \<lparr>sigsSeen = {}, validSigs = 0\<rparr> =
   ([IsValidPath ''s1'' ''/nosig'', QueryPathInfo ''s1'' ''/nosig'', CheckSignature ''ok1'',
     IsValidPath ''s2'' ''/nosig'', QueryPathInfo ''s2'' ''/nosig'', CheckSignature ''ok2''],
    \<lparr>sigsSeen = {''ok2'', ''ok1''}, validSigs = 2\<rparr>, None) \<and>
   verifyPaths sampleEnv
     (parseFlags 0 [NoContents, Substituter ''s1'', Substituter ''s2'', Substituter ''s3'',
        SigsNeeded 2])
     None sampleStore [''/nosig''] =
   ([OpenStoreAt ''s1'', OpenStoreAt ''s2'', OpenStoreAt ''s3'', GetDefaultPublicKeys,
     QueryPathInfo ''local'' ''/nosig'',
     IsValidPath ''s1'' ''/nosig'', QueryPathInfo ''s1'' ''/nosig'', CheckSignature ''ok1'',
     IsValidPath ''s2'' ''/nosig'', QueryPathInfo ''s2'' ''/nosig'', CheckSignature ''ok2''],
    Some \<lparr>untrusted = 0, corrupted = 0, done' = 1, failed = 0\<rparr>, Exit 0)"
proof -
  have reached: "(2 :: size_t) \<le> validSigs \<lparr>sigsSeen = {''ok2'', ''ok1''}, validSigs = 2\<rparr>"
    by simp
  from substituter_loop_short_circuit [OF loop_two_substituters reached,
      of "[sampleSubstituter ''s3'' [''ok3'']]"]
    loop_two_substituters reached run_short_circuit
  show ?thesis by (intro conjI)
qed

text \<open>
  C5. A signature string counts at most once: after the local signatures and the
  substituters, \<^verbatim>\<open>validSigs\<close> is the number of distinct strings seen that verify, every string
  seen was supplied by the path or by a substituter, and so the count is at most the number
  of distinct supplied strings that verify.
\<close>

theorem signature_counted_once:
  assumes "collectSigs chk n substituters storePath info = (evs, st, r)"
  shows "validSigs st = of_nat (card {s \<in> sigsSeen st. chk s = Inr True}) \<and>
         sigsSeen st \<subseteq> suppliedSigs substituters storePath info \<and>
         unat (validSigs st) \<le> card {s \<in> suppliedSigs substituters storePath info. chk s = Inr True}"
proof -
  let ?st0 = "\<lparr>sigsSeen = {}, validSigs = 0\<rparr>"
  have inv0: "countedOnce chk ?st0" by (simp add: countedOnce_def)
  obtain e1 s1 r1 where l: "doSigs chk (sigs info) ?st0 = (e1, s1, r1)"
    by (metis prod_cases3)
  note l1 = doSigs_countedOnce [OF l inv0]
  have inv: "countedOnce chk st \<and> sigsSeen st \<subseteq> suppliedSigs substituters storePath info"
  proof (cases r1)
    case (Some x)
    with l assms have "st = s1" by (simp add: collectSigs_def)
    with l1 show ?thesis by (auto simp: suppliedSigs_def)
  next
    case None
    with l assms obtain e2 where
      "substituterLoop chk storePath (actualSigsNeeded_of n) substituters s1 = (e2, st, r)"
      by (cases "substituterLoop chk storePath (actualSigsNeeded_of n) substituters s1")
         (auto simp: collectSigs_def)
    from substituterLoop_countedOnce [OF this] l1 show ?thesis
      by (auto simp: suppliedSigs_def)
  qed
  have fin: "finite (suppliedSigs substituters storePath info)"
    by (auto simp: suppliedSigs_def substituterSigs_def split: sum.splits)
  have "card {s \<in> sigsSeen st. chk s = Inr True} \<le>
        card {s \<in> suppliedSigs substituters storePath info. chk s = Inr True}"
    using inv fin by (intro card_mono) auto
  moreover have "unat (validSigs st) \<le> card {s \<in> sigsSeen st. chk s = Inr True}"
    using inv by (simp add: countedOnce_def unat_of_nat_le)
  ultimately show ?thesis using inv by (simp add: countedOnce_def)
qed

theorem signature_counted_once_witness:
  "collectSigs sampleCheck 2 [sampleSubstituter ''s1'' [''ok1'']] ''/sig1''
     (sampleInfo ''/sig1'' False [''ok1'']) =
   ([CheckSignature ''ok1'', IsValidPath ''s1'' ''/sig1'', QueryPathInfo ''s1'' ''/sig1''],
    \<lparr>sigsSeen = {''ok1''}, validSigs = 1\<rparr>, None) \<and>
   (1 :: size_t) = of_nat (card {s \<in> {''ok1''}. sampleCheck s = Inr True}) \<and>
   {''ok1''} \<subseteq> suppliedSigs [sampleSubstituter ''s1'' [''ok1'']] ''/sig1''
     (sampleInfo ''/sig1'' False [''ok1'']) \<and>
   unat (1 :: size_t) \<le> card {s \<in> suppliedSigs [sampleSubstituter ''s1'' [''ok1'']] ''/sig1''
     (sampleInfo ''/sig1'' False [''ok1'']). sampleCheck s = Inr True} \<and>
   verifyPaths sampleEnv (parseFlags 0 [NoContents, Substituter ''s1'', SigsNeeded 2])
     None sampleStore [''/sig1''] =
   ([OpenStoreAt ''s1'', GetDefaultPublicKeys, QueryPathInfo ''local'' ''/sig1'',
     CheckSignature ''ok1'', IsValidPath ''s1'' ''/sig1'', QueryPathInfo ''s1'' ''/sig1'',
     PrintMsg (MsgUntrusted ''/sig1'')],
    Some \<lparr>untrusted = 1, corrupted = 0, done' = 1, failed = 0\<rparr>, Exit 2)"
  using signature_counted_once [OF collect_duplicate] collect_duplicate run_duplicate_untrusted
  by simp

text \<open>
  C6. For a path whose metadata is ultimate, with a threshold of 0, the trust check yields
  \<^verbatim>\<open>good\<close> at once: it calls nothing, and the task for the path checks no signature, asks no
  substituter and does not count the path as untrusted.
\<close>

theorem ultimate_trusted_without_signatures:
  assumes "queryPathInfo store storePath = Inr info" and "ultimate info" and "sigsNeeded v = 0"
    and "doPath e v store substituters publicKeys interrupted storePath c = (evs, c', r)"
  shows "isTrusted e v substituters publicKeys storePath info = ([], True, None) \<and>
         untrusted c' = untrusted c \<and>
         (\<forall>sig. CheckSignature sig \<notin> set evs) \<and>
         (\<forall>u p. IsValidPath u p \<notin> set evs) \<and>
         (\<forall>p. PrintMsg (MsgUntrusted p) \<notin> set evs)"
proof -
  have t: "isTrusted e v substituters publicKeys storePath info = ([], True, None)"
    using assms(2,3) by (simp add: isTrusted_def)
  have "untrusted c' = untrusted c \<and>
         (\<forall>sig. CheckSignature sig \<notin> set evs) \<and>
         (\<forall>u p. IsValidPath u p \<notin> set evs) \<and>
         (\<forall>p. PrintMsg (MsgUntrusted p) \<notin> set evs)"
    using assms(1,4) t
    by (auto simp: doPath_def doPathBody_def checkContents_def checkTrust_def
        split: if_splits sum.splits option.splits exn.splits)
  with t show ?thesis by simp
qed


theorem ultimate_trusted_without_signatures_witness:
  "queryPathInfo sampleStore ''/ok'' = Inr (sampleInfo ''/ok'' True []) \<and>
   ultimate (sampleInfo ''/ok'' True []) \<and>
   sigsNeeded (parseFlags 0 [Substituter ''s1'']) = 0 \<and>
   doPath sampleEnv (parseFlags 0 [Substituter ''s1'']) sampleStore
     [sampleSubstituter ''s1'' [''ok1'']] Map.empty False ''/ok'' noCounts =
   ([QueryPathInfo ''local'' ''/ok'', NarFromPath ''local'' ''/ok''],
    \<lparr>untrusted = 0, corrupted = 0, done' = 1, failed = 0\<rparr>, None) \<and>
   isTrusted sampleEnv (parseFlags 0 [Substituter ''s1''])
     [sampleSubstituter ''s1'' [''ok1'']] Map.empty ''/ok'' (sampleInfo ''/ok'' True []) =
   ([], True, None) \<and>
   untrusted \<lparr>untrusted = 0, corrupted = 0, done' = 1, failed = 0\<rparr> = untrusted noCounts"
proof -
  have q: "queryPathInfo sampleStore ''/ok'' = Inr (sampleInfo ''/ok'' True [])"
    by (simp add: sample_defs)
  have u: "ultimate (sampleInfo ''/ok'' True [])"
    by (simp add: sample_defs)
  have n: "sigsNeeded (parseFlags 0 [Substituter ''s1'']) = 0"
    by (simp add: parseFlags_def MixVerify_new_def)
  from ultimate_trusted_without_signatures [OF q u n doPath_ok] q u n doPath_ok
  show ?thesis by simp
qed

text \<open>
  C1. The claim is that \<^verbatim>\<open>corrupted\<close> ends at the number of paths whose recomputed hash differs
  from the recorded one. Line 82 is \<^verbatim>\<open>corrupted = 1\<close>, an assignment, where lines 129, 135 and
  141 increment their counters. The run over two modified paths reports both and ends with
  \<^verbatim>\<open>corrupted = 1\<close>.
\<close>

theorem two_modified_paths_count_one:
  "verifyPaths sampleEnv (parseFlags 0 []) None sampleStore [''/mod1'', ''/mod2''] =
     ([GetDefaultPublicKeys,
       QueryPathInfo ''local'' ''/mod1'', NarFromPath ''local'' ''/mod1'',
       PrintMsg (MsgModified ''/mod1'' \<lparr>htype = htSHA256, digest = ''recorded''\<rparr>
         \<lparr>htype = htSHA256, digest = ''/mod1''\<rparr>),
       QueryPathInfo ''local'' ''/mod2'', NarFromPath ''local'' ''/mod2'',
       PrintMsg (MsgModified ''/mod2'' \<lparr>htype = htSHA256, digest = ''recorded''\<rparr>
         \<lparr>htype = htSHA256, digest = ''/mod2''\<rparr>)],
      Some \<lparr>untrusted = 0, corrupted = 1, done' = 2, failed = 0\<rparr>, Exit 1)"
  by (simp add: engine_defs sample_defs word_le_nat_alt)

text \<open>
  C9. The claim is that the threshold is 0 when the caller does not set it. The field
  \<^verbatim>\<open>sigsNeeded\<close> has no initialiser and the constructor does not assign it, so with no
  \<^verbatim>\<open>--sigs-needed\<close> flag it keeps what its storage held. When that is 5, five signatures are
  required and an intact ultimate path is reported untrusted; when it is 0 the same run
  ends with 0. (That the number required is \<^verbatim>\<open>max(threshold, 1)\<close> is lemma
  \<^verbatim>\<open>actualSigsNeeded_of_max\<close>.)
\<close>

theorem threshold_not_initialised:
  "sigsNeeded (parseFlags 5 []) = 5 \<and>
   actualSigsNeeded_of (sigsNeeded (parseFlags 5 [])) = 5 \<and>
   verifyPaths sampleEnv (parseFlags 5 []) None sampleStore [''/ok''] =
     ([GetDefaultPublicKeys, QueryPathInfo ''local'' ''/ok'', NarFromPath ''local'' ''/ok'',
       PrintMsg (MsgUntrusted ''/ok'')],
      Some \<lparr>untrusted = 1, corrupted = 0, done' = 1, failed = 0\<rparr>, Exit 2) \<and>
   verifyPaths sampleEnv (parseFlags 0 []) None sampleStore [''/ok''] =
     ([GetDefaultPublicKeys, QueryPathInfo ''local'' ''/ok'', NarFromPath ''local'' ''/ok''],
      Some \<lparr>untrusted = 0, corrupted = 0, done' = 1, failed = 0\<rparr>, Exit 0)"
  by (simp add: engine_defs sample_defs word_le_nat_alt)

text \<open>
  C10. Every configured substituter is opened before anything else happens, whether or not
  trust is checked. If one of them cannot be opened, the run ends with that exception: the
  trace holds nothing but the opening of stores, the counters do not exist yet, and there is
  no exit status. If all of them can be opened, the trace starts with the opening of all of
  them, in order.
\<close>

theorem substituters_opened_first:
  "((\<exists>u \<in> set (substituterUris v). \<exists>x. openStoreAt e u = Inl x) \<longrightarrow>
      (\<exists>us y. verifyPaths e v cancel store storePaths = (map OpenStoreAt us, None, Thrown y) \<and>
         set us \<subseteq> set (substituterUris v))) \<and>
   ((\<forall>u \<in> set (substituterUris v). \<exists>s. openStoreAt e u = Inr s) \<longrightarrow>
      (\<exists>evs cs t. verifyPaths e v cancel store storePaths =
         (map OpenStoreAt (substituterUris v) @ GetDefaultPublicKeys # evs, cs, t)))"
proof -
  obtain evs0 subs r where o: "openSubstituters e (substituterUris v) [] = (evs0, subs, r)"
    by (metis prod_cases3)
  from openSubstituters_events [OF o] obtain us where
    us: "evs0 = map OpenStoreAt us" "set us \<subseteq> set (substituterUris v)"
        "r = None \<longrightarrow> us = substituterUris v"
    by blast
  have fails: "\<exists>us y. verifyPaths e v cancel store storePaths = (map OpenStoreAt us, None, Thrown y) \<and>
         set us \<subseteq> set (substituterUris v)"
    if "\<exists>u \<in> set (substituterUris v). \<exists>x. openStoreAt e u = Inl x"
  proof -
    from that openSubstituters_fails [of _ "substituterUris v" e _ "[]"] o
    obtain y where "r = Some y" by fastforce
    with o us have "verifyPaths e v cancel store storePaths = (map OpenStoreAt us, None, Thrown y)"
      by (simp add: verifyPaths_def)
    with us(2) show ?thesis by blast
  qed
  have succeeds: "\<exists>evs cs t. verifyPaths e v cancel store storePaths =
         (map OpenStoreAt (substituterUris v) @ GetDefaultPublicKeys # evs, cs, t)"
    if "\<forall>u \<in> set (substituterUris v). \<exists>s. openStoreAt e u = Inr s"
  proof -
    from openSubstituters_succeeds [OF that, of "[]"] o have "r = None" by simp
    with o us show ?thesis
      by (auto simp: verifyPaths_def split: sum.splits prod.splits option.splits)
  qed
  from fails succeeds show ?thesis by blast
qed

theorem substituters_opened_first_witness:
  "(\<exists>u \<in> set (substituterUris
        (parseFlags 0 [NoTrust, Substituter ''s1'', Substituter ''nowhere'', Substituter ''s2''])).
      \<exists>x. openStoreAt sampleEnv u = Inl x) \<and>
   (\<exists>us y. verifyPaths sampleEnv
        (parseFlags 0 [NoTrust, Substituter ''s1'', Substituter ''nowhere'', Substituter ''s2''])
        None sampleStore [''/gone''] = (map OpenStoreAt us, None, Thrown y) \<and>
      set us \<subseteq> set (substituterUris
        (parseFlags 0 [NoTrust, Substituter ''s1'', Substituter ''nowhere'', Substituter ''s2'']))) \<and>
   verifyPaths sampleEnv
     (parseFlags 0 [NoTrust, Substituter ''s1'', Substituter ''nowhere'', Substituter ''s2''])
     None sampleStore [''/gone''] =
   ([OpenStoreAt ''s1'', OpenStoreAt ''nowhere''], None, Thrown (Error ''cannot open store'')) \<and>
   (\<exists>s1 s2. openStoreAt sampleEnv ''s1'' = Inr s1 \<and> openStoreAt sampleEnv ''s2'' = Inr s2) \<and>
   (\<exists>evs cs t. verifyPaths sampleEnv
        (parseFlags 0 [NoTrust, Substituter ''s1'', Substituter ''s2'']) None sampleStore [''/ok''] =
      (map OpenStoreAt (substituterUris
         (parseFlags 0 [NoTrust, Substituter ''s1'', Substituter ''s2''])) @
       GetDefaultPublicKeys # evs, cs, t))"
proof -
  let ?bad = "parseFlags 0 [NoTrust, Substituter ''s1'', Substituter ''nowhere'', Substituter ''s2'']"
  let ?good = "parseFlags 0 [NoTrust, Substituter ''s1'', Substituter ''s2'']"
  have fails: "\<exists>u \<in> set (substituterUris ?bad). \<exists>x. openStoreAt sampleEnv u = Inl x"
    by (simp add: parseFlags_def MixVerify_new_def sampleEnv_def)
  have opens: "\<forall>u \<in> set (substituterUris ?good). \<exists>s. openStoreAt sampleEnv u = Inr s"
    by (simp add: parseFlags_def MixVerify_new_def sampleEnv_def)
  have both: "\<exists>s1 s2. openStoreAt sampleEnv ''s1'' = Inr s1 \<and> openStoreAt sampleEnv ''s2'' = Inr s2"
    by (simp add: sampleEnv_def)
  note a = substituters_opened_first [of ?bad sampleEnv None sampleStore "[''/gone'']",
      THEN conjunct1, THEN mp, OF fails]
  note b = substituters_opened_first [of ?good sampleEnv None sampleStore "[''/ok'']",
      THEN conjunct2, THEN mp, OF opens]
  from fails a b both run_open_fails show ?thesis
    by (intro conjI) simp_all
qed

text \<open>
  C7. When the query of a substituter throws an \<^verbatim>\<open>Error\<close> while the threshold is not yet
  met, the loop prints the error and goes on with the substituters that follow, from the
  same signature state. The counters and the exception with which the task for the path
  ends are those of the same task without that substituter: the error alone adds nothing
  to \<^verbatim>\<open>failed\<close> or \<^verbatim>\<open>untrusted\<close>, and the path is untrusted exactly when the others leave
  the threshold unmet.
\<close>

theorem substituter_error_skipped:
  assumes "queryFails store2 storePath m"
  shows "(\<not> n \<le> validSigs st \<longrightarrow>
            substituterLoop chk storePath n (store2 # rest) st =
            emit (queryEvents store2 storePath @ [PrintMsg (MsgError m)])
              (substituterLoop chk storePath n rest st)) \<and>
         snd (doPath e v store (pre @ store2 # post) publicKeys interrupted storePath c) =
         snd (doPath e v store (pre @ post) publicKeys interrupted storePath c)"
  using substituterLoop_failing [OF assms] doPath_skip [OF assms] by blast

theorem substituter_error_skipped_witness:
  "queryFails downSubstituter ''/nosig'' ''connection refused'' \<and>
   \<not> (1 :: size_t) \<le> validSigs \<lparr>sigsSeen = {}, validSigs = 0\<rparr> \<and>
   substituterLoop sampleCheck ''/nosig'' 1
     (downSubstituter # [sampleSubstituter ''s1'' [''ok1'']])
     \<lparr>sigsSeen = {}, validSigs = 0\<rparr> =
   emit (queryEvents downSubstituter ''/nosig'' @ [PrintMsg (MsgError ''connection refused'')])
     (substituterLoop sampleCheck ''/nosig'' 1 [sampleSubstituter ''s1'' [''ok1'']]
        \<lparr>sigsSeen = {}, validSigs = 0\<rparr>) \<and>
   doPath sampleEnv (parseFlags 0 [NoContents]) sampleStore
     ([] @ downSubstituter # [sampleSubstituter ''s1'' [''ok1'']]) Map.empty False ''/nosig''
     noCounts =
   ([QueryPathInfo ''local'' ''/nosig'',
     IsValidPath ''down'' ''/nosig'', PrintMsg (MsgError ''connection refused''),
     IsValidPath ''s1'' ''/nosig'', QueryPathInfo ''s1'' ''/nosig'', CheckSignature ''ok1''],
    \<lparr>untrusted = 0, corrupted = 0, done' = 1, failed = 0\<rparr>, None) \<and>
   snd (doPath sampleEnv (parseFlags 0 [NoContents]) sampleStore
     ([] @ [sampleSubstituter ''s1'' [''ok1'']]) Map.empty False ''/nosig'' noCounts) =
   (\<lparr>untrusted = 0, corrupted = 0, done' = 1, failed = 0\<rparr>, None)"
proof -
  have unmet: "\<not> (1 :: size_t) \<le> validSigs \<lparr>sigsSeen = {}, validSigs = 0\<rparr>"
    by simp
  note t = substituter_error_skipped [OF down_fails,
      of 1 "\<lparr>sigsSeen = {}, validSigs = 0\<rparr>" sampleCheck "[sampleSubstituter ''s1'' [''ok1'']]"
         sampleEnv "parseFlags 0 [NoContents]" sampleStore "[]"
         "[sampleSubstituter ''s1'' [''ok1'']]" Map.empty False noCounts]
  from t unmet down_fails doPath_down_then_s1 show ?thesis
    by (intro conjI) simp_all
qed

text \<open>
  C8. When the body of the task for a path throws an \<^verbatim>\<open>Error\<close> (the inner handler has
  already taken those of the substituters), the task prints it and ends normally, with
  \<^verbatim>\<open>failed\<close> incremented and \<^verbatim>\<open>done\<close> and \<^verbatim>\<open>untrusted\<close> as they were. The other paths of
  the run are not affected: if the run without that path ends normally, so does the run
  with it, with the same events for the other paths, the same \<^verbatim>\<open>done\<close> and \<^verbatim>\<open>untrusted\<close>,
  and \<^verbatim>\<open>failed\<close> one higher.
\<close>

theorem task_error_counts_failed:
  assumes "doPathBody e v store subs keys False p c0 = (evs0, c0', Some (Error m))"
  shows "(\<exists>c'. doPath e v store subs keys False p c = (evs0 @ [PrintMsg (MsgError m)], c', None) \<and>
            done' c' = done' c \<and> untrusted c' = untrusted c \<and> failed c' = failed c + 1) \<and>
         (processPaths e v store subs keys None (pre @ post) c = (evsB, cB, None) \<longrightarrow>
            (\<exists>e2 cA.
               evsB = fst (processPaths e v store subs keys None pre c) @ e2 \<and>
               processPaths e v store subs keys None (pre @ p # post) c =
                 (fst (processPaths e v store subs keys None pre c) @
                    evs0 @ [PrintMsg (MsgError m)] @ e2, cA, None) \<and>
               done' cA = done' cB \<and> untrusted cA = untrusted cB \<and> failed cA = failed cB + 1))"
proof (intro conjI impI)
  show "\<exists>c'. doPath e v store subs keys False p c = (evs0 @ [PrintMsg (MsgError m)], c', None) \<and>
            done' c' = done' c \<and> untrusted c' = untrusted c \<and> failed c' = failed c + 1"
    by (rule failing_task [OF assms])
next
  assume B: "processPaths e v store subs keys None (pre @ post) c = (evsB, cB, None)"
  then obtain e1 c1 e2 where
    pre: "processPaths e v store subs keys None pre c = (e1, c1, None)" and
    post: "processPaths e v store subs keys None post c1 = (e2, cB, None)" and
    evsB: "evsB = e1 @ e2"
    by (auto simp: processPaths_append elim: andThen_eq_NoneD)
  from failing_task [OF assms, of c1] obtain c2 where
    task: "doPath e v store subs keys False p c1 = (evs0 @ [PrintMsg (MsgError m)], c2, None)" and
    rel: "sameButFailed c1 c2"
    by (auto simp: sameButFailed_def)
  obtain e3 cA r3 where A: "processPaths e v store subs keys None post c2 = (e3, cA, r3)"
    by (metis prod_cases3)
  have "related sameButFailed (processPaths e v store subs keys None post c1)
          (processPaths e v store subs keys None post c2)"
    by (rule processPaths_related [OF respectsUpdates_sameButFailed rel])
  with post A have same: "e3 = e2" "r3 = None" "sameButFailed cB cA" by simp_all
  have "processPaths e v store subs keys None (pre @ p # post) c =
          (e1 @ evs0 @ [PrintMsg (MsgError m)] @ e2, cA, None)"
    using pre task A same by (simp add: processPaths_append)
  with pre evsB same(3) show "\<exists>e2 cA.
       evsB = fst (processPaths e v store subs keys None pre c) @ e2 \<and>
       processPaths e v store subs keys None (pre @ p # post) c =
         (fst (processPaths e v store subs keys None pre c) @
            evs0 @ [PrintMsg (MsgError m)] @ e2, cA, None) \<and>
       done' cA = done' cB \<and> untrusted cA = untrusted cB \<and> failed cA = failed cB + 1"
    by (auto simp: sameButFailed_def)
qed


theorem task_error_counts_failed_witness:
  "doPathBody sampleEnv (parseFlags 0 []) sampleStore [] Map.empty False ''/unreadable'' noCounts =
   ([QueryPathInfo ''local'' ''/unreadable'', NarFromPath ''local'' ''/unreadable''],
    noCounts, Some (Error ''read error'')) \<and>
   processPaths sampleEnv (parseFlags 0 []) sampleStore [] Map.empty None
     ([''/ok''] @ [''/nosig'']) noCounts =
   ([QueryPathInfo ''local'' ''/ok'', NarFromPath ''local'' ''/ok'',
     QueryPathInfo ''local'' ''/nosig'', NarFromPath ''local'' ''/nosig'',
     PrintMsg (MsgUntrusted ''/nosig'')],
    \<lparr>untrusted = 1, corrupted = 0, done' = 2, failed = 0\<rparr>, None) \<and>
   (\<exists>cA. processPaths sampleEnv (parseFlags 0 []) sampleStore [] Map.empty None
       ([''/ok''] @ ''/unreadable'' # [''/nosig'']) noCounts =
     ([QueryPathInfo ''local'' ''/ok'', NarFromPath ''local'' ''/ok'',
       QueryPathInfo ''local'' ''/unreadable'', NarFromPath ''local'' ''/unreadable'',
       PrintMsg (MsgError ''read error''),
       QueryPathInfo ''local'' ''/nosig'', NarFromPath ''local'' ''/nosig'',
       PrintMsg (MsgUntrusted ''/nosig'')], cA, None) \<and>
     done' cA = 2 \<and> untrusted cA = 1 \<and> failed cA = 0 + 1) \<and>
   verifyPaths sampleEnv (parseFlags 0 []) None sampleStore [''/ok'', ''/unreadable'', ''/nosig''] =
   ([GetDefaultPublicKeys,
     QueryPathInfo ''local'' ''/ok'', NarFromPath ''local'' ''/ok'',
     QueryPathInfo ''local'' ''/unreadable'', NarFromPath ''local'' ''/unreadable'',
     PrintMsg (MsgError ''read error''),
     QueryPathInfo ''local'' ''/nosig'', NarFromPath ''local'' ''/nosig'',
     PrintMsg (MsgUntrusted ''/nosig'')],
    Some \<lparr>untrusted = 1, corrupted = 0, done' = 2, failed = 1\<rparr>, Exit 6)"
proof -
  have pre: "fst (processPaths sampleEnv (parseFlags 0 []) sampleStore [] Map.empty None
      [''/ok''] noCounts) = [QueryPathInfo ''local'' ''/ok'', NarFromPath ''local'' ''/ok'']"
    by (simp add: engine_defs sample_defs word_le_nat_alt)
  from task_error_counts_failed [OF body_unreadable, THEN conjunct2, THEN mp,
      OF run_without_unreadable]
  obtain e2 cA where
    "[QueryPathInfo ''local'' ''/ok'', NarFromPath ''local'' ''/ok'',
      QueryPathInfo ''local'' ''/nosig'', NarFromPath ''local'' ''/nosig'',
      PrintMsg (MsgUntrusted ''/nosig'')] =
     fst (processPaths sampleEnv (parseFlags 0 []) sampleStore [] Map.empty None
       [''/ok''] noCounts) @ e2"
    "processPaths sampleEnv (parseFlags 0 []) sampleStore [] Map.empty None
       ([''/ok''] @ ''/unreadable'' # [''/nosig'']) noCounts =
     (fst (processPaths sampleEnv (parseFlags 0 []) sampleStore [] Map.empty None
        [''/ok''] noCounts) @
      [QueryPathInfo ''local'' ''/unreadable'', NarFromPath ''local'' ''/unreadable''] @
      [PrintMsg (MsgError ''read error'')] @ e2, cA, None)"
    "done' cA = done' \<lparr>untrusted = 1, corrupted = 0, done' = 2, failed = 0\<rparr>"
    "untrusted cA = untrusted \<lparr>untrusted = 1, corrupted = 0, done' = 2, failed = 0\<rparr>"
    "failed cA = failed \<lparr>untrusted = 1, corrupted = 0, done' = 2, failed = 0\<rparr> + 1"
    by blast
  then have "processPaths sampleEnv (parseFlags 0 []) sampleStore [] Map.empty None
       ([''/ok''] @ ''/unreadable'' # [''/nosig'']) noCounts =
     ([QueryPathInfo ''local'' ''/ok'', NarFromPath ''local'' ''/ok'',
       QueryPathInfo ''local'' ''/unreadable'', NarFromPath ''local'' ''/unreadable'',
       PrintMsg (MsgError ''read error''),
       QueryPathInfo ''local'' ''/nosig'', NarFromPath ''local'' ''/nosig'',
       PrintMsg (MsgUntrusted ''/nosig'')], cA, None) \<and>
     done' cA = 2 \<and> untrusted cA = 1 \<and> failed cA = 0 + 1"
    unfolding pre by simp
  with body_unreadable run_without_unreadable run_with_unreadable show ?thesis by blast
qed

end
